theory Spec2Isabelle
  imports Complex_Main "HOL-Library.Word"
begin

section \<open>JavaScript numbers\<close>

text \<open>
  The library computes with JavaScript numbers. A number is modelled as a finite real,
  one of the two infinities, or NaN. The operations \<open>+\<close>, \<open>-\<close>, \<open>*\<close> and \<open>/\<close> on
  finite values are exact and the sign of zero is not represented. The rounding of a
  result to binary64 is a function of its own, \<open>binary64\<close> below, applied after every
  operation of the saturation stage, where it decides stored bytes, and left out of the
  other stages. The special values follow IEEE 754: a nonzero finite value divided by zero
  is an infinity, zero divided by zero and zero times infinity are NaN, and NaN
  propagates. Every comparison with NaN is false.
\<close>

datatype number = Val real | PosInf | NegInf | NaN

instantiation number :: "{zero, one, plus, minus, uminus, times, inverse, ord}"
begin

definition zero_number :: number where
  "zero_number = Val 0"

definition one_number :: number where
  "one_number = Val 1"

fun plus_number :: "number \<Rightarrow> number \<Rightarrow> number" where
  "plus_number NaN y = NaN"
| "plus_number x NaN = NaN"
| "plus_number (Val a) (Val b) = Val (a + b)"
| "plus_number PosInf NegInf = NaN"
| "plus_number NegInf PosInf = NaN"
| "plus_number PosInf y = PosInf"
| "plus_number NegInf y = NegInf"
| "plus_number (Val a) y = y"

fun uminus_number :: "number \<Rightarrow> number" where
  "uminus_number (Val a) = Val (- a)"
| "uminus_number PosInf = NegInf"
| "uminus_number NegInf = PosInf"
| "uminus_number NaN = NaN"

definition minus_number :: "number \<Rightarrow> number \<Rightarrow> number" where
  "minus_number x y = x + (- y)"

definition signInf :: "bool \<Rightarrow> number" where
  "signInf positive = (if positive then PosInf else NegInf)"

fun times_number :: "number \<Rightarrow> number \<Rightarrow> number" where
  "times_number NaN y = NaN"
| "times_number x NaN = NaN"
| "times_number (Val a) (Val b) = Val (a * b)"
| "times_number (Val a) PosInf = (if a = 0 then NaN else signInf (0 < a))"
| "times_number (Val a) NegInf = (if a = 0 then NaN else signInf (a < 0))"
| "times_number PosInf (Val b) = (if b = 0 then NaN else signInf (0 < b))"
| "times_number NegInf (Val b) = (if b = 0 then NaN else signInf (b < 0))"
| "times_number PosInf PosInf = PosInf"
| "times_number PosInf NegInf = NegInf"
| "times_number NegInf PosInf = NegInf"
| "times_number NegInf NegInf = PosInf"

fun divide_number :: "number \<Rightarrow> number \<Rightarrow> number" where
  "divide_number NaN y = NaN"
| "divide_number x NaN = NaN"
| "divide_number (Val a) (Val b) =
     (if b = 0 then (if a = 0 then NaN else signInf (0 < a)) else Val (a / b))"
| "divide_number (Val a) y = Val 0"
| "divide_number PosInf (Val b) = signInf (0 \<le> b)"
| "divide_number NegInf (Val b) = signInf (b < 0)"
| "divide_number x y = NaN"

definition inverse_number :: "number \<Rightarrow> number" where
  "inverse_number x = divide (Val 1) x"

fun less_number :: "number \<Rightarrow> number \<Rightarrow> bool" where
  "less_number (Val a) (Val b) = (a < b)"
| "less_number (Val a) PosInf = True"
| "less_number NegInf (Val b) = True"
| "less_number NegInf PosInf = True"
| "less_number x y = False"

fun less_eq_number :: "number \<Rightarrow> number \<Rightarrow> bool" where
  "less_eq_number (Val a) (Val b) = (a \<le> b)"
| "less_eq_number (Val a) PosInf = True"
| "less_eq_number NegInf (Val b) = True"
| "less_eq_number NegInf PosInf = True"
| "less_eq_number PosInf PosInf = True"
| "less_eq_number NegInf NegInf = True"
| "less_eq_number x y = False"

instance ..

end

text \<open>Strict equality \<open>===\<close> on numbers: NaN is not equal to itself.\<close>

definition strictEq :: "number \<Rightarrow> number \<Rightarrow> bool" where
  "strictEq x y = (x \<noteq> NaN \<and> x = y)"

definition strictNe :: "number \<Rightarrow> number \<Rightarrow> bool" where
  "strictNe x y = (\<not> strictEq x y)"

text \<open>\<open>Math.max\<close> and \<open>Math.min\<close> of two arguments: NaN if either argument is NaN.\<close>

definition Math_max :: "number \<Rightarrow> number \<Rightarrow> number" where
  "Math_max x y = (if x = NaN \<or> y = NaN then NaN else if x < y then y else x)"

definition Math_min :: "number \<Rightarrow> number \<Rightarrow> number" where
  "Math_min x y = (if x = NaN \<or> y = NaN then NaN else if y < x then y else x)"

text \<open>\<open>Math.round\<close> rounds to the nearest integer, a tie towards plus infinity.\<close>

fun Math_round :: "number \<Rightarrow> number" where
  "Math_round (Val a) = Val (of_int \<lfloor>a + 1 / 2\<rfloor>)"
| "Math_round x = x"

fun Math_ceil :: "number \<Rightarrow> number" where
  "Math_ceil (Val a) = Val (of_int \<lceil>a\<rceil>)"
| "Math_ceil x = x"

fun Math_exp :: "number \<Rightarrow> number" where
  "Math_exp (Val a) = Val (exp a)"
| "Math_exp PosInf = PosInf"
| "Math_exp NegInf = Val 0"
| "Math_exp NaN = NaN"

fun Math_log :: "number \<Rightarrow> number" where
  "Math_log (Val a) = (if a < 0 then NaN else if a = 0 then NegInf else Val (ln a))"
| "Math_log PosInf = PosInf"
| "Math_log x = NaN"

fun Math_sqrt :: "number \<Rightarrow> number" where
  "Math_sqrt (Val a) = (if a < 0 then NaN else Val (sqrt a))"
| "Math_sqrt PosInf = PosInf"
| "Math_sqrt x = NaN"

fun Math_cos :: "number \<Rightarrow> number" where
  "Math_cos (Val a) = Val (cos a)"
| "Math_cos x = NaN"

text \<open>
  A store into a \<open>Float32Array\<close> rounds to binary32: to the nearest value with a 24-bit
  significand (a tie to the even one), with the exponent no smaller than that of the
  subnormal numbers, and to an infinity from \<open>2 ^ 128\<close> on. This rounding is \<open>2 ^ 29\<close>
  times coarser than that of the arithmetic and is represented.
\<close>

definition roundHalfEven :: "real \<Rightarrow> int" where
  "roundHalfEven x =
     (let f = \<lfloor>x\<rfloor> in
      if x - of_int f < 1 / 2 then f
      else if 1 / 2 < x - of_int f then f + 1
      else if even f then f else f + 1)"

definition fround :: "real \<Rightarrow> real" where
  "fround x =
     (if x = 0 then 0
      else (let e = max (- 126) \<lfloor>log 2 \<bar>x\<bar>\<rfloor>;
                q = 2 powr of_int (e - 23)
            in of_int (roundHalfEven (x / q)) * q))"

fun toFloat32 :: "number \<Rightarrow> number" where
  "toFloat32 (Val a) =
     (let y = fround a in if 2 ^ 128 \<le> \<bar>y\<bar> then signInf (0 < y) else Val y)"
| "toFloat32 x = x"

text \<open>
  In the saturation stage the product \<open>l * 255\<close> can fall on or next to a half, where
  the rounding of the arithmetic decides the byte that is stored. There every operation
  is followed by the rounding to binary64 that the machine applies to its exact result:
  to the nearest value with a 53-bit significand (a tie to the even one), subnormal
  numbers included, and to an infinity from \<open>2 ^ 1024\<close> on.
\<close>

definition round64 :: "real \<Rightarrow> real" where
  "round64 x =
     (if x = 0 then 0
      else (let e = max (- 1022) \<lfloor>log 2 \<bar>x\<bar>\<rfloor>;
                q = 2 powr of_int (e - 52)
            in of_int (roundHalfEven (x / q)) * q))"

fun binary64 :: "number \<Rightarrow> number" where
  "binary64 (Val a) =
     (let y = round64 a in if 2 ^ 1024 \<le> \<bar>y\<bar> then signInf (0 < y) else Val y)"
| "binary64 x = x"

declare binary64.simps(1) [simp del]

section \<open>Image buffers\<close>

text \<open>
  An \<open>ImageData\<close> has a width, a height and a \<open>Uint8ClampedArray\<close> of
  \<open>4 * width * height\<close> bytes, four per pixel (R, G, B, A) in row-major order.
  The platform only hands out buffers of that shape, which \<open>wellFormed\<close> records.
\<close>

record ImageData =
  width :: nat
  height :: nat
  data :: "nat list"

definition wellFormed :: "ImageData \<Rightarrow> bool" where
  "wellFormed img =
     (length (data img) = 4 * (width img * height img) \<and> list_all (\<lambda>v. v \<le> 255) (data img))"

record Adjustments =
  autoWhiteBalance :: bool
  noiseSigma :: number
  blurPx :: number
  brightness :: number
  contrast :: number
  saturation :: number

text \<open>
  Storing a number into a \<open>Uint8ClampedArray\<close> converts it to a byte: NaN becomes 0,
  the value is clamped to 0..255 and rounded to the nearest integer, a tie to the even one.
\<close>

fun toUint8Clamp :: "number \<Rightarrow> nat" where
  "toUint8Clamp (Val a) = (if a \<le> 0 then 0 else if 255 \<le> a then 255 else nat (roundHalfEven a))"
| "toUint8Clamp PosInf = 255"
| "toUint8Clamp NegInf = 0"
| "toUint8Clamp NaN = 0"

text \<open>A byte read from a buffer is a number.\<close>

definition byte :: "nat \<Rightarrow> number" where
  "byte v = Val (real v)"

section \<open>The stages\<close>

text \<open>
  Each stage is described on well-formed buffers. The loops of the source run over the
  byte array four bytes at a time and fill a fresh array of the same shape.
\<close>

text \<open>\<open>clamp(v, min = 0, max = 255)\<close>; \<open>clamp255\<close> is the call with the defaults.\<close>

definition clamp :: "number \<Rightarrow> number \<Rightarrow> number \<Rightarrow> number" where
  "clamp v mn mx = (if v < mn then mn else if v > mx then mx else v)"

definition clamp255 :: "number \<Rightarrow> number" where
  "clamp255 v = clamp v (Val 0) (Val 255)"

text \<open>
  The loop \<open>for (let i = 0; i < src.length; i += 4)\<close> of the pointwise stages: each
  group of four source bytes yields the four bytes written at the same index of the
  fresh buffer.
\<close>

fun pixelLoop :: "(nat \<Rightarrow> nat \<Rightarrow> nat \<Rightarrow> nat \<Rightarrow> nat list) \<Rightarrow> nat list \<Rightarrow> nat list" where
  "pixelLoop f (r # g # b # a # rest) = f r g b a @ pixelLoop f rest"
| "pixelLoop f rest = []"

subsection \<open>Auto white balance\<close>

text \<open>
  The histograms are \<open>Uint32Array(256)\<close>: a bin is a 32-bit word and \<open>++\<close> wraps.
  An update at an index outside the array is dropped, as \<open>list_update\<close> does.
\<close>

type_synonym histogram = "32 word list"

definition bump :: "histogram \<Rightarrow> nat \<Rightarrow> histogram" where
  "bump hist v = hist[v := hist ! v + 1]"

fun histLoop :: "nat list \<Rightarrow> histogram \<times> histogram \<times> histogram
                   \<Rightarrow> histogram \<times> histogram \<times> histogram" where
  "histLoop (r # g # b # a # rest) (hr, hg, hb) = histLoop rest (bump hr r, bump hg g, bump hb b)"
| "histLoop rest hs = hs"

definition histAt :: "histogram \<Rightarrow> nat \<Rightarrow> number" where
  "histAt hist v = (if v < length hist then Val (real (unat (hist ! v))) else NaN)"

definition clipCount :: "nat \<Rightarrow> number \<Rightarrow> number" where
  "clipCount n clipPct =
     Math_max (Val 0) (Math_min (Val (real n) - Val 1) (Math_round (Val (real n) * clipPct)))"

text \<open>
  The ascending scan of \<open>lowHigh\<close>: \<open>lowScan hist clipN v acc\<close> is the value of \<open>lo\<close>
  when the loop is about to test \<open>v < 256\<close> with the accumulator \<open>acc\<close>; \<open>lo\<close> keeps
  its initial 0 when the loop ends without a \<open>break\<close>.
\<close>

function lowScan :: "histogram \<Rightarrow> number \<Rightarrow> nat \<Rightarrow> number \<Rightarrow> nat" where
  "lowScan hist clipN v acc =
     (if v < 256
      then (let acc' = acc + histAt hist v
            in if acc' > clipN then v else lowScan hist clipN (v + 1) acc')
      else 0)"
  by pat_completeness auto
termination
  by (relation "measure (\<lambda>(hist, clipN, v, acc). 256 - v)") auto

declare lowScan.simps [simp del]

text \<open>
  The descending scan: \<open>highScan hist clipN k acc\<close> is the value of \<open>hi\<close> when the
  loop variable is \<open>v = k - 1\<close>; at \<open>k = 0\<close> the test \<open>v >= 0\<close> fails and \<open>hi\<close> keeps
  its initial 255.
\<close>

fun highScan :: "histogram \<Rightarrow> number \<Rightarrow> nat \<Rightarrow> number \<Rightarrow> nat" where
  "highScan hist clipN 0 acc = 255"
| "highScan hist clipN (Suc v) acc =
     (let acc' = acc + histAt hist v
      in if acc' > clipN then v else highScan hist clipN v acc')"

definition lowHigh :: "number \<Rightarrow> histogram \<Rightarrow> nat \<times> nat" where
  "lowHigh clipN hist =
     (let lo = lowScan hist clipN 0 (Val 0);
          hi = highScan hist clipN 256 (Val 0)
      in if hi \<le> lo then (0, 255) else (lo, hi))"

text \<open>\<open>x || y\<close> on numbers: zero and NaN are falsy.\<close>

definition orElse :: "number \<Rightarrow> number \<Rightarrow> number" where
  "orElse x y = (if x = Val 0 \<or> x = NaN then y else x)"

definition lutRange :: "number \<Rightarrow> number \<Rightarrow> number" where
  "lutRange lo hi = orElse (hi - lo) (Val 1)"

definition lutEntry :: "number \<Rightarrow> number \<Rightarrow> nat \<Rightarrow> nat" where
  "lutEntry lo hi v =
     (let t = ((byte v - lo) / lutRange lo hi) * Val 255
      in toUint8Clamp (if t < Val 0 then Val 0 else if t > Val 255 then Val 255 else t))"

definition makeLut :: "number \<Rightarrow> number \<Rightarrow> nat list" where
  "makeLut lo hi = map (lutEntry lo hi) [0..<256]"

text \<open>Reading a table past its end yields \<open>undefined\<close>, which is stored as 0.\<close>

definition lutAt :: "nat list \<Rightarrow> nat \<Rightarrow> nat" where
  "lutAt lut v = (if v < length lut then lut ! v else 0)"

definition applyAutoWhiteBalance :: "ImageData \<Rightarrow> number \<Rightarrow> ImageData" where
  "applyAutoWhiteBalance img clipPct =
     (let buf = data img; n = width img * height img
      in if n = 0 then img
         else
           (let (hr, hg, hb) =
                  histLoop buf (replicate 256 0, replicate 256 0, replicate 256 0);
                clipN = clipCount n clipPct;
                (rLo, rHi) = lowHigh clipN hr;
                (gLo, gHi) = lowHigh clipN hg;
                (bLo, bHi) = lowHigh clipN hb;
                lr = makeLut (byte rLo) (byte rHi);
                lg = makeLut (byte gLo) (byte gHi);
                lb = makeLut (byte bLo) (byte bHi)
            in \<lparr> width = width img, height = height img,
                 data = pixelLoop (\<lambda>r g b a. [lutAt lr r, lutAt lg g, lutAt lb b, a]) buf \<rparr>))"

text \<open>The default \<open>clipPct = 0.005\<close>.\<close>

definition defaultClipPct :: number where
  "defaultClipPct = Val 0.005"

subsection \<open>Gaussian noise\<close>

text \<open>
  \<open>Math.random()\<close> is the only ambient state of the library. The values it returns, in
  order, are a parameter; each call consumes one. \<open>untilNonzero\<close> is the loop
  \<open>while (u === 0) u = Math.random()\<close>, entered with \<open>u = 0\<close>: it returns the first
  nonzero draw and what is left of the supply, and \<open>None\<close> when every draw left is zero,
  where the source would keep drawing.
\<close>

fun untilNonzero :: "real list \<Rightarrow> (real \<times> real list) option" where
  "untilNonzero [] = None"
| "untilNonzero (x # xs) = (if x = 0 then untilNonzero xs else Some (x, xs))"

definition gaussianRandom :: "real list \<Rightarrow> number \<Rightarrow> number \<Rightarrow> (number \<times> real list) option" where
  "gaussianRandom rs mean stdDev =
     (case untilNonzero rs of
        None \<Rightarrow> None
      | Some (u, rs1) \<Rightarrow>
          (case untilNonzero rs1 of
             None \<Rightarrow> None
           | Some (v, rs2) \<Rightarrow>
               (let mag = Math_sqrt (Val (- 2) * Math_log (Val u));
                    z0 = mag * Math_cos (Val 2 * Val pi * Val v)
                in Some (z0 * stdDev + mean, rs2))))"

definition noiseChannel :: "real list \<Rightarrow> number \<Rightarrow> nat \<Rightarrow> (nat \<times> real list) option" where
  "noiseChannel rs sigma v =
     (case gaussianRandom rs (Val 0) sigma of
        None \<Rightarrow> None
      | Some (z, rs') \<Rightarrow> Some (toUint8Clamp (clamp255 (byte v + z)), rs'))"

fun noiseLoop :: "real list \<Rightarrow> number \<Rightarrow> nat list \<Rightarrow> (nat list \<times> real list) option" where
  "noiseLoop rs sigma (r # g # b # a # rest) =
     (case noiseChannel rs sigma r of
        None \<Rightarrow> None
      | Some (r', rs1) \<Rightarrow>
          (case noiseChannel rs1 sigma g of
             None \<Rightarrow> None
           | Some (g', rs2) \<Rightarrow>
               (case noiseChannel rs2 sigma b of
                  None \<Rightarrow> None
                | Some (b', rs3) \<Rightarrow>
                    (case noiseLoop rs3 sigma rest of
                       None \<Rightarrow> None
                     | Some (out, rs4) \<Rightarrow> Some (r' # g' # b' # a # out, rs4)))))"
| "noiseLoop rs sigma rest = Some ([], rs)"

definition applyGaussianNoise :: "real list \<Rightarrow> ImageData \<Rightarrow> number \<Rightarrow> (ImageData \<times> real list) option" where
  "applyGaussianNoise rs img sigma =
     (if sigma \<le> Val 0 then Some (img, rs)
      else (case noiseLoop rs sigma (data img) of
              None \<Rightarrow> None
            | Some (out, rs') \<Rightarrow>
                Some (\<lparr> width = width img, height = height img, data = out \<rparr>, rs')))"

subsection \<open>Brightness and contrast\<close>

text \<open>
  \<open>bcValue\<close> is the number \<open>clamp(f * (src[i] - 128) + 128 + b)\<close> that the stage
  assigns to \<open>dst[i]\<close>, \<open>bcChannel\<close> the byte that the assignment stores.
\<close>

definition bcValue :: "number \<Rightarrow> number \<Rightarrow> nat \<Rightarrow> number" where
  "bcValue f b v = clamp255 (f * (byte v - Val 128) + Val 128 + b)"

definition bcChannel :: "number \<Rightarrow> number \<Rightarrow> nat \<Rightarrow> nat" where
  "bcChannel f b v = toUint8Clamp (bcValue f b v)"

definition contrastFactor :: "number \<Rightarrow> number" where
  "contrastFactor contrastPct =
     (let c = contrastPct / Val 100 in (Val 259 * (c + Val 1)) / (Val 255 * (Val 1 - c)))"

definition applyBrightnessContrast :: "ImageData \<Rightarrow> number \<Rightarrow> number \<Rightarrow> ImageData" where
  "applyBrightnessContrast img brightnessPct contrastPct =
     (let b = (brightnessPct / Val 100) * Val 255;
          f = contrastFactor contrastPct
      in \<lparr> width = width img, height = height img,
           data = pixelLoop (\<lambda>r g bl a. [bcChannel f b r, bcChannel f b g, bcChannel f b bl, a])
                    (data img) \<rparr>)"

subsection \<open>Saturation\<close>

definition rgbToHsl :: "number \<Rightarrow> number \<Rightarrow> number \<Rightarrow> number \<times> number \<times> number" where
  "rgbToHsl r0 g0 b0 =
     (let r = binary64 (r0 / Val 255); g = binary64 (g0 / Val 255); b = binary64 (b0 / Val 255);
          mx = Math_max (Math_max r g) b;
          mn = Math_min (Math_min r g) b;
          l = binary64 (binary64 (mx + mn) / Val 2)
      in if strictNe mx mn
         then (let d = binary64 (mx - mn);
                   s = (if l > Val 0.5 then binary64 (d / binary64 (binary64 (Val 2 - mx) - mn))
                        else binary64 (d / binary64 (mx - mn)));
                   h = (if strictEq mx r
                        then binary64 (binary64 (binary64 (g - b) / d)
                                       + (if g < b then Val 6 else Val 0))
                        else if strictEq mx g
                        then binary64 (binary64 (binary64 (b - r) / d) + Val 2)
                        else if strictEq mx b
                        then binary64 (binary64 (binary64 (r - g) / d) + Val 4)
                        else Val 0)
               in (binary64 (h / Val 6), s, l))
         else (Val 0, Val 0, l))"

definition hue2rgb :: "number \<Rightarrow> number \<Rightarrow> number \<Rightarrow> number" where
  "hue2rgb p q t0 =
     (let t1 = (if t0 < Val 0 then binary64 (t0 + Val 1) else t0);
          t = (if t1 > Val 1 then binary64 (t1 - Val 1) else t1)
      in if t < binary64 (Val 1 / Val 6)
         then binary64 (p + binary64 (binary64 (binary64 (q - p) * Val 6) * t))
         else if t < binary64 (Val 1 / Val 2) then q
         else if t < binary64 (Val 2 / Val 3)
         then binary64 (p + binary64 (binary64 (binary64 (q - p)
                                                 * binary64 (binary64 (Val 2 / Val 3) - t))
                                       * Val 6))
         else p)"

definition hslToRgb :: "number \<Rightarrow> number \<Rightarrow> number \<Rightarrow> number \<times> number \<times> number" where
  "hslToRgb h s l =
     (let (r, g, b) =
            (if strictEq s (Val 0) then (l, l, l)
             else (let q = (if l < Val 0.5 then binary64 (l * binary64 (Val 1 + s))
                            else binary64 (binary64 (l + s) - binary64 (l * s)));
                       p = binary64 (binary64 (Val 2 * l) - q)
                   in (hue2rgb p q (binary64 (h + binary64 (Val 1 / Val 3))), hue2rgb p q h,
                       hue2rgb p q (binary64 (h - binary64 (Val 1 / Val 3))))))
      in (binary64 (r * Val 255), binary64 (g * Val 255), binary64 (b * Val 255)))"

definition satPixel :: "number \<Rightarrow> nat \<Rightarrow> nat \<Rightarrow> nat \<Rightarrow> nat \<Rightarrow> nat list" where
  "satPixel factor r g b a =
     (let (h, s0, l) = rgbToHsl (byte r) (byte g) (byte b);
          s = Math_max (Val 0) (Math_min (Val 1) (binary64 (s0 * factor)));
          (nr, ng, nb) = hslToRgb h s l
      in [toUint8Clamp (clamp255 nr), toUint8Clamp (clamp255 ng), toUint8Clamp (clamp255 nb), a])"

definition saturationFactor :: "number \<Rightarrow> number" where
  "saturationFactor saturationPct = binary64 (Val 1 + binary64 (saturationPct / Val 100))"

definition applySaturation :: "ImageData \<Rightarrow> number \<Rightarrow> ImageData" where
  "applySaturation img saturationPct =
     (if strictEq saturationPct (Val 0) then img
      else (let factor = saturationFactor saturationPct
            in \<lparr> width = width img, height = height img,
                 data = pixelLoop (satPixel factor) (data img) \<rparr>))"

subsection \<open>Gaussian blur\<close>

text \<open>
  The loops \<open>for (let i = -radius; i <= radius; i++)\<close> run over the integers from
  \<open>-radius\<close> to \<open>radius\<close>. The radius is a whole number from 1 to 20, or NaN when
  \<open>sigma\<close> is NaN; with NaN the loop test fails at once and the kernel, created with
  the length NaN, is empty.
\<close>

fun offsets :: "number \<Rightarrow> int list" where
  "offsets (Val r) = [- \<lfloor>r\<rfloor> .. \<lfloor>r\<rfloor>]"
| "offsets x = []"

definition makeGaussianKernel :: "number \<Rightarrow> number list \<times> number" where
  "makeGaussianKernel sigma =
     (if sigma \<le> Val 0.1 then ([Val 1], Val 0)
      else (let radius = Math_max (Val 1) (Math_min (Val 20) (Math_ceil (sigma * Val 3)));
                sigma2 = sigma * sigma;
                vs = map (\<lambda>i. Math_exp (- (Val (of_int i) * Val (of_int i)) / (Val 2 * sigma2)))
                       (offsets radius);
                sum = foldl (+) (Val 0) vs;
                krn = map toFloat32 vs
            in (map (\<lambda>w. toFloat32 (w / sum)) krn, radius)))"

text \<open>A read outside an array yields \<open>undefined\<close>, which is NaN in arithmetic.\<close>

definition srcAt :: "nat list \<Rightarrow> int \<Rightarrow> number" where
  "srcAt xs i = (if 0 \<le> i \<and> nat i < length xs then byte (xs ! nat i) else NaN)"

fun kernelAt :: "number list \<Rightarrow> number \<Rightarrow> int \<Rightarrow> number" where
  "kernelAt krn (Val r) k =
     (let i = k + \<lfloor>r\<rfloor> in if 0 \<le> i \<and> nat i < length krn then krn ! nat i else NaN)"
| "kernelAt krn x k = NaN"

text \<open>\<open>Math.min(n - 1, Math.max(0, i))\<close> on whole numbers.\<close>

definition clampIndex :: "int \<Rightarrow> nat \<Rightarrow> int" where
  "clampIndex i n = min (int n - 1) (max 0 i)"

text \<open>
  One accumulator of the inner loop over \<open>k\<close>: it starts at 0 and adds
  \<open>sample k * kernel[k + radius]\<close> for each offset.
\<close>

definition weighted :: "number list \<Rightarrow> number \<Rightarrow> (int \<Rightarrow> number) \<Rightarrow> number" where
  "weighted krn radius sample =
     foldl (\<lambda>acc k. acc + sample k * kernelAt krn radius k) (Val 0) (offsets radius)"

text \<open>
  A pass visits the pixels row by row and stores the four accumulators of each at
  \<open>(y * w + x) * 4\<close>, so it fills the buffer in order. \<open>sample x y k j\<close> is the byte
  of channel \<open>j\<close> that the pass reads at offset \<open>k\<close>.
\<close>

definition blurPass :: "number list \<Rightarrow> number \<Rightarrow> nat \<Rightarrow> nat \<Rightarrow> (nat \<Rightarrow> nat \<Rightarrow> int \<Rightarrow> nat \<Rightarrow> number) \<Rightarrow> nat list" where
  "blurPass krn radius w h sample =
     concat (map (\<lambda>y. concat (map (\<lambda>x.
        map (\<lambda>j. toUint8Clamp (weighted krn radius (\<lambda>k. sample x y k j))) [0..<4])
        [0..<w])) [0..<h])"

definition hSample :: "nat list \<Rightarrow> nat \<Rightarrow> nat \<Rightarrow> nat \<Rightarrow> int \<Rightarrow> nat \<Rightarrow> number" where
  "hSample src w x y k j = srcAt src ((int y * int w + clampIndex (int x + k) w) * 4 + int j)"

definition vSample :: "nat list \<Rightarrow> nat \<Rightarrow> nat \<Rightarrow> nat \<Rightarrow> nat \<Rightarrow> int \<Rightarrow> nat \<Rightarrow> number" where
  "vSample tmp w h x y k j = srcAt tmp ((clampIndex (int y + k) h * int w + int x) * 4 + int j)"

definition applyGaussianBlur :: "ImageData \<Rightarrow> number \<Rightarrow> ImageData" where
  "applyGaussianBlur img sigmaPx =
     (if sigmaPx \<le> Val 0.1 then img
      else (let (krn, radius) = makeGaussianKernel sigmaPx;
                w = width img; h = height img;
                src = data img;
                tmp = blurPass krn radius w h (hSample src w);
                out = blurPass krn radius w h (vSample tmp w h)
            in \<lparr> width = w, height = h, data = out \<rparr>))"

subsection \<open>The pipeline\<close>

text \<open>The guarded call of the brightness and contrast stage, as the pipeline makes it.\<close>

definition pipelineBrightnessContrast :: "Adjustments \<Rightarrow> ImageData \<Rightarrow> ImageData" where
  "pipelineBrightnessContrast adj img =
     (if strictNe (brightness adj) (Val 0) \<or> strictNe (contrast adj) (Val 0)
      then applyBrightnessContrast img (brightness adj) (contrast adj)
      else img)"

definition applyPipeline :: "real list \<Rightarrow> ImageData \<Rightarrow> Adjustments \<Rightarrow> (ImageData \<times> real list) option" where
  "applyPipeline rs input adj =
     (let img1 = (if autoWhiteBalance adj then applyAutoWhiteBalance input defaultClipPct
                  else input)
      in case (if noiseSigma adj > Val 0 then applyGaussianNoise rs img1 (noiseSigma adj)
               else Some (img1, rs)) of
           None \<Rightarrow> None
         | Some (img2, rs') \<Rightarrow>
             (let img3 = pipelineBrightnessContrast adj img2;
                  img4 = (if strictNe (saturation adj) (Val 0)
                          then applySaturation img3 (saturation adj) else img3);
                  img5 = (if blurPx adj > Val 0 then applyGaussianBlur img4 (blurPx adj)
                          else img4)
              in Some (img5, rs')))"

section \<open>Notions used in the statements\<close>

text \<open>Two buffers have the same dimensions.\<close>

definition sameDims :: "ImageData \<Rightarrow> ImageData \<Rightarrow> bool" where
  "sameDims img out = (width out = width img \<and> height out = height img)"

text \<open>
  The output has as many bytes as the input and, at every pixel, the same alpha byte
  (index \<open>4 * p + 3\<close>).
\<close>

definition alphaPreserved :: "ImageData \<Rightarrow> ImageData \<Rightarrow> bool" where
  "alphaPreserved img out =
     (length (data out) = length (data img)
      \<and> (\<forall>p < width img * height img. data out ! (4 * p + 3) = data img ! (4 * p + 3)))"

text \<open>
  The number of nonzero draws left in the supply. The noise stage consumes two nonzero
  draws for each colour channel, six for each pixel.
\<close>

definition nonzeroDraws :: "real list \<Rightarrow> nat" where
  "nonzeroDraws rs = length (filter (\<lambda>x. x \<noteq> 0) rs)"

text \<open>A per-pixel function that writes four bytes, the last one the alpha it was given.\<close>

definition keepsAlpha :: "(nat \<Rightarrow> nat \<Rightarrow> nat \<Rightarrow> nat \<Rightarrow> nat list) \<Rightarrow> bool" where
  "keepsAlpha f = (\<forall>r g b a. \<exists>x y z. f r g b a = [x, y, z, a])"

text \<open>The bytes of an image of \<open>n\<close> pixels that are all \<open>(r, g, b, a)\<close>.\<close>

definition uniformData :: "nat \<Rightarrow> nat \<Rightarrow> nat \<Rightarrow> nat \<Rightarrow> nat \<Rightarrow> nat list" where
  "uniformData n r g b a = concat (replicate n [r, g, b, a])"

text \<open>A histogram in which no bin other than \<open>c\<close> has been incremented.\<close>

definition singleBin :: "nat \<Rightarrow> histogram \<Rightarrow> bool" where
  "singleBin c hist = (length hist = 256 \<and> (\<forall>v < 256. v \<noteq> c \<longrightarrow> hist ! v = 0))"


text \<open>
  The HSL lightness that the saturation stage computes for a pixel, and the grey pixel
  whose three colour bytes are that lightness times 255, rounded by the byte store.
\<close>

definition lightness :: "nat \<Rightarrow> nat \<Rightarrow> nat \<Rightarrow> number" where
  "lightness r g b = (case rgbToHsl (byte r) (byte g) (byte b) of (h, s, l) \<Rightarrow> l)"

definition greyLevel :: "nat \<Rightarrow> nat \<Rightarrow> nat \<Rightarrow> number" where
  "greyLevel r g b = binary64 (lightness r g b * Val 255)"

definition greyPixel :: "nat \<Rightarrow> nat \<Rightarrow> nat \<Rightarrow> nat \<Rightarrow> nat list" where
  "greyPixel r g b a =
     (let v = toUint8Clamp (greyLevel r g b) in [v, v, v, a])"

text \<open>The largest and the smallest of the three colour bytes of a pixel.\<close>

definition maxByte :: "nat \<Rightarrow> nat \<Rightarrow> nat \<Rightarrow> nat" where
  "maxByte r g b = max (max r g) b"

definition minByte :: "nat \<Rightarrow> nat \<Rightarrow> nat \<Rightarrow> nat" where
  "minByte r g b = min (min r g) b"

text \<open>
  Quantities of the proofs about the saturation stage: a bound on the error of one
  rounding to binary64 of a value of magnitude at most 1000; the binary64 quotient
  \<open>v / 255\<close> of a byte; and the binary64 value of \<open>(max + min) / 2\<close> for the quotients of
  the bytes \<open>hi\<close> and \<open>lo\<close>.
\<close>

definition eps64 :: real where
  "eps64 = 1 / 10 ^ 12"

definition unit255 :: "nat \<Rightarrow> real" where
  "unit255 v = round64 (real v / 255)"

definition lightOf :: "nat \<Rightarrow> nat \<Rightarrow> real" where
  "lightOf hi lo = round64 (round64 (unit255 hi + unit255 lo) / 2)"

text \<open>The sum of the entries of a kernel, accumulated from 0 in order.\<close>

definition sumOf :: "number list \<Rightarrow> number" where
  "sumOf xs = foldl (+) (Val 0) xs"

text \<open>
  For \<open>sigma > 0.1\<close> (a finite value or plus infinity): the radius that
  \<open>makeGaussianKernel\<close> computes, the value \<open>Math.exp\<close> returns at offset \<open>i\<close>,
  and the weight that ends up in the \<open>Float32Array\<close> after the two stores (of the
  value, then of the stored value divided by the sum).
\<close>

definition kernelRadius :: "number \<Rightarrow> int" where
  "kernelRadius sigma = (case sigma of Val s \<Rightarrow> max 1 (min 20 \<lceil>s * 3\<rceil>) | _ \<Rightarrow> 20)"

definition gaussWeight :: "number \<Rightarrow> int \<Rightarrow> real" where
  "gaussWeight sigma i =
     (case sigma of Val s \<Rightarrow> exp (- (of_int i * of_int i) / (2 * (s * s))) | _ \<Rightarrow> 1)"

definition storedWeight :: "number \<Rightarrow> int \<Rightarrow> real" where
  "storedWeight sigma i =
     fround (fround (gaussWeight sigma i)
             / sum_list (map (gaussWeight sigma) [- kernelRadius sigma .. kernelRadius sigma]))"

section \<open>Arithmetic of finite numbers\<close>

lemma val_arith [simp]:
  "Val a + Val b = Val (a + b)"
  "Val a - Val b = Val (a - b)"
  "Val a * Val b = Val (a * b)"
  "(Val a < Val b) = (a < b)"
  "(Val a \<le> Val b) = (a \<le> b)"
  by (simp_all add: minus_number_def)

lemma val_div [simp]: "b \<noteq> 0 \<Longrightarrow> Val a / Val b = Val (a / b)"
  by simp


lemma math_max_val [simp]: "Math_max (Val a) (Val b) = Val (max a b)"
  by (simp add: Math_max_def max_def)

lemma math_min_val [simp]: "Math_min (Val a) (Val b) = Val (min a b)"
  by (simp add: Math_min_def min_def)

lemma strictEq_val [simp]: "strictEq (Val a) (Val b) = (a = b)"
  by (simp add: strictEq_def)

lemma strictNe_val [simp]: "strictNe (Val a) (Val b) = (a \<noteq> b)"
  by (simp add: strictNe_def)

lemma roundHalfEven_bounds: "\<lfloor>x\<rfloor> \<le> roundHalfEven x \<and> roundHalfEven x \<le> \<lfloor>x\<rfloor> + 1"
  by (simp add: roundHalfEven_def Let_def)

lemma toUint8Clamp_le: "toUint8Clamp x \<le> 255"
proof (cases x)
  case (Val a)
  have "roundHalfEven a \<le> \<lfloor>a\<rfloor> + 1" using roundHalfEven_bounds by simp
  moreover have "a < 255 \<Longrightarrow> \<lfloor>a\<rfloor> \<le> 254" by linarith
  ultimately have "a < 255 \<Longrightarrow> nat (roundHalfEven a) \<le> 255" by linarith
  then show ?thesis using Val by auto
qed simp_all

lemma toUint8Clamp_clamp255 [simp]: "toUint8Clamp (clamp255 x) = toUint8Clamp x"
  by (cases x) (auto simp: clamp255_def clamp_def)

lemma roundHalfEven_of_nat [simp]: "roundHalfEven (real n) = int n"
  by (simp add: roundHalfEven_def Let_def)

lemma toUint8Clamp_byte [simp]: "v \<le> 255 \<Longrightarrow> toUint8Clamp (byte v) = v"
  by (auto simp: byte_def)

lemma pixelLoop_cong_bytes:
  assumes "list_all P xs"
    and "\<And>r g b a. P r \<Longrightarrow> P g \<Longrightarrow> P b \<Longrightarrow> P a \<Longrightarrow> f r g b a = f' r g b a"
  shows "pixelLoop f xs = pixelLoop f' xs"
  using assms
  by (induction f xs rule: pixelLoop.induct) simp_all

lemma pixelLoop_bytes:
  assumes "list_all (\<lambda>v. v \<le> 255) xs"
    and "\<And>r g b a. a \<le> 255 \<Longrightarrow> list_all (\<lambda>v. v \<le> 255) (f r g b a)"
  shows "list_all (\<lambda>v. v \<le> 255) (pixelLoop f xs)"
  using assms
  by (induction f xs rule: pixelLoop.induct) simp_all


section \<open>The pixel loop\<close>

lemma pixelLoop_length:
  "keepsAlpha f \<Longrightarrow> length (pixelLoop f xs) = 4 * (length xs div 4)"
proof (induction f xs rule: pixelLoop.induct)
  case (1 f r g b a rest)
  from 1(2) obtain x y z where "f r g b a = [x, y, z, a]"
    unfolding keepsAlpha_def by blast
  with 1 show ?case by simp
qed simp_all

lemma pixelLoop_alpha:
  "keepsAlpha f \<Longrightarrow> p < length xs div 4 \<Longrightarrow> pixelLoop f xs ! (4 * p + 3) = xs ! (4 * p + 3)"
proof (induction f xs arbitrary: p rule: pixelLoop.induct)
  case (1 f r g b a rest)
  from 1(2) obtain x y z where fx: "f r g b a = [x, y, z, a]"
    unfolding keepsAlpha_def by blast
  show ?case
  proof (cases p)
    case 0
    then show ?thesis using fx by simp
  next
    case (Suc q)
    with 1(3) have q: "q < length rest div 4" by simp
    have "pixelLoop f rest ! (4 * q + 3) = rest ! (4 * q + 3)"
      using 1(1)[OF 1(2) q] .
    then show ?thesis using fx Suc by (simp add: add.commute)
  qed
qed simp_all

lemma pixelLoop_alphaPreserved:
  assumes "wellFormed img" "keepsAlpha f"
  shows "alphaPreserved img \<lparr> width = width img, height = height img, data = pixelLoop f (data img) \<rparr>"
  using assms pixelLoop_length[OF assms(2), of "data img"] pixelLoop_alpha[OF assms(2), of _ "data img"]
  by (simp add: alphaPreserved_def wellFormed_def)

lemma alphaPreserved_refl: "alphaPreserved img img"
  by (simp add: alphaPreserved_def)

lemma keepsAlpha_awb: "keepsAlpha (\<lambda>r g b a. [lutAt lr r, lutAt lg g, lutAt lb b, a])"
  by (simp add: keepsAlpha_def)

lemma keepsAlpha_bc: "keepsAlpha (\<lambda>r g bl a. [bcChannel f b r, bcChannel f b g, bcChannel f b bl, a])"
  by (simp add: keepsAlpha_def)

lemma keepsAlpha_sat: "keepsAlpha (satPixel factor)"
  by (simp add: keepsAlpha_def satPixel_def Let_def split: prod.splits)

lemma awb_alpha: "wellFormed img \<Longrightarrow> alphaPreserved img (applyAutoWhiteBalance img clipPct)"
  by (simp add: applyAutoWhiteBalance_def Let_def alphaPreserved_refl pixelLoop_alphaPreserved keepsAlpha_awb split: prod.splits)

lemma bc_alpha: "wellFormed img \<Longrightarrow> alphaPreserved img (applyBrightnessContrast img b c)"
  by (simp add: applyBrightnessContrast_def Let_def pixelLoop_alphaPreserved keepsAlpha_bc)

lemma sat_alpha: "wellFormed img \<Longrightarrow> alphaPreserved img (applySaturation img s)"
  by (simp add: applySaturation_def Let_def alphaPreserved_refl pixelLoop_alphaPreserved keepsAlpha_sat)


section \<open>The noise stage returns\<close>

lemma untilNonzero_total:
  "1 \<le> nonzeroDraws rs \<Longrightarrow> \<exists>u rs'. untilNonzero rs = Some (u, rs') \<and> nonzeroDraws rs' = nonzeroDraws rs - 1"
  by (induction rs) (auto simp: nonzeroDraws_def)

lemma gaussianRandom_total:
  assumes "2 \<le> nonzeroDraws rs"
  shows "\<exists>z rs'. gaussianRandom rs m s = Some (z, rs') \<and> nonzeroDraws rs' = nonzeroDraws rs - 2"
proof -
  from assms have "1 \<le> nonzeroDraws rs" by simp
  from untilNonzero_total[OF this]
  obtain u rs1 where 1: "untilNonzero rs = Some (u, rs1)" "nonzeroDraws rs1 = nonzeroDraws rs - 1"
    by blast
  with assms have "1 \<le> nonzeroDraws rs1" by simp
  from untilNonzero_total[OF this]
  obtain v rs2 where 2: "untilNonzero rs1 = Some (v, rs2)" "nonzeroDraws rs2 = nonzeroDraws rs1 - 1"
    by blast
  show ?thesis using 1 2 by (simp add: gaussianRandom_def Let_def)
qed

lemma noiseChannel_total:
  assumes "2 \<le> nonzeroDraws rs"
  shows "\<exists>c rs'. noiseChannel rs sigma v = Some (c, rs') \<and> nonzeroDraws rs' = nonzeroDraws rs - 2"
  using gaussianRandom_total[OF assms, of "Val 0" sigma]
  by (auto simp: noiseChannel_def)

lemma noiseLoop_total:
  "6 * (length xs div 4) \<le> nonzeroDraws rs \<Longrightarrow>
     \<exists>out rs'. noiseLoop rs sigma xs = Some (out, rs')
        \<and> length out = 4 * (length xs div 4)
        \<and> (\<forall>p < length xs div 4. out ! (4 * p + 3) = xs ! (4 * p + 3))"
proof (induction rs sigma xs rule: noiseLoop.induct)
  case (1 rs sigma r g b a rest)
  from 1(2) have n: "6 + 6 * (length rest div 4) \<le> nonzeroDraws rs" by simp
  then have "2 \<le> nonzeroDraws rs" by simp
  from noiseChannel_total[OF this]
  obtain r' rs1 where c1: "noiseChannel rs sigma r = Some (r', rs1)" "nonzeroDraws rs1 = nonzeroDraws rs - 2"
    by blast
  with n have "2 \<le> nonzeroDraws rs1" by simp
  from noiseChannel_total[OF this]
  obtain g' rs2 where c2: "noiseChannel rs1 sigma g = Some (g', rs2)" "nonzeroDraws rs2 = nonzeroDraws rs1 - 2"
    by blast
  with n c1 have "2 \<le> nonzeroDraws rs2" by simp
  from noiseChannel_total[OF this]
  obtain b' rs3 where c3: "noiseChannel rs2 sigma b = Some (b', rs3)" "nonzeroDraws rs3 = nonzeroDraws rs2 - 2"
    by blast
  have "6 * (length rest div 4) \<le> nonzeroDraws rs3" using n c1 c2 c3 by simp
  from 1(1)[OF c1(1) refl c2(1) refl c3(1) refl this]
  obtain out rs4 where ih: "noiseLoop rs3 sigma rest = Some (out, rs4)"
      "length out = 4 * (length rest div 4)"
      "\<forall>p < length rest div 4. out ! (4 * p + 3) = rest ! (4 * p + 3)" by blast
  have "\<forall>p < length (r # g # b # a # rest) div 4.
          (r' # g' # b' # a # out) ! (4 * p + 3) = (r # g # b # a # rest) ! (4 * p + 3)"
  proof (intro allI impI)
    fix p assume p: "p < length (r # g # b # a # rest) div 4"
    show "(r' # g' # b' # a # out) ! (4 * p + 3) = (r # g # b # a # rest) ! (4 * p + 3)"
    proof (cases p)
      case 0 then show ?thesis by simp
    next
      case (Suc q)
      with p have "q < length rest div 4" by simp
      with ih(3) Suc show ?thesis by (simp add: add.commute)
    qed
  qed
  with c1 c2 c3 ih show ?case by simp
qed simp_all

lemma noise_alpha:
  assumes "wellFormed img" "6 * (width img * height img) \<le> nonzeroDraws rs"
  shows "\<exists>out rs'. applyGaussianNoise rs img sigma = Some (out, rs') \<and> alphaPreserved img out"
proof (cases "sigma \<le> Val 0")
  case True
  then show ?thesis by (simp add: applyGaussianNoise_def alphaPreserved_refl)
next
  case False
  from assms have len: "length (data img) div 4 = width img * height img"
    by (simp add: wellFormed_def)
  with assms obtain out rs' where "noiseLoop rs sigma (data img) = Some (out, rs')"
    "length out = 4 * (length (data img) div 4)"
    "\<forall>p < length (data img) div 4. out ! (4 * p + 3) = data img ! (4 * p + 3)"
    using noiseLoop_total[of "data img" rs sigma] by auto
  with False len assms(1) show ?thesis
    by (simp add: applyGaussianNoise_def alphaPreserved_def wellFormed_def)
qed


lemma noiseLoop_len_div:
  assumes "6 * (length (data img) div 4) \<le> nonzeroDraws rs"
  shows "\<exists>out rs'. applyGaussianNoise rs img sigma = Some (out, rs') \<and> sameDims img out
          \<and> length (data out) div 4 = length (data img) div 4"
proof (cases "sigma \<le> Val 0")
  case True
  then show ?thesis by (simp add: applyGaussianNoise_def sameDims_def)
next
  case False
  from noiseLoop_total[OF assms, of sigma]
  obtain out rs' where "noiseLoop rs sigma (data img) = Some (out, rs')"
    "length out = 4 * (length (data img) div 4)" by blast
  with False show ?thesis
    by (simp add: applyGaussianNoise_def sameDims_def)
qed


section \<open>Dimensions\<close>

lemma awb_dims: "sameDims img (applyAutoWhiteBalance img p)"
  by (simp add: applyAutoWhiteBalance_def sameDims_def Let_def split: prod.splits)

lemma awb_len_div: "length (data (applyAutoWhiteBalance img p)) div 4 = length (data img) div 4"
  by (simp add: applyAutoWhiteBalance_def Let_def pixelLoop_length keepsAlpha_awb split: prod.splits)

lemma bc_dims: "sameDims img (applyBrightnessContrast img b c)"
  by (simp add: applyBrightnessContrast_def sameDims_def Let_def)

lemma sat_dims: "sameDims img (applySaturation img s)"
  by (simp add: applySaturation_def sameDims_def Let_def)

lemma blur_dims: "sameDims img (applyGaussianBlur img s)"
  by (simp add: applyGaussianBlur_def sameDims_def Let_def split: prod.splits)

lemma pbc_dims: "sameDims img (pipelineBrightnessContrast adj img)"
  using bc_dims by (simp add: pipelineBrightnessContrast_def sameDims_def)

section \<open>Well-formed buffers\<close>

lemma lutAt_le: "lutAt (makeLut lo hi) v \<le> 255"
  by (simp add: lutAt_def makeLut_def lutEntry_def Let_def toUint8Clamp_le del: upt_Suc)

lemma pixelLoop_wellFormed:
  assumes "wellFormed img" and "keepsAlpha f"
    and "\<And>r g b a. a \<le> 255 \<Longrightarrow> list_all (\<lambda>v. v \<le> 255) (f r g b a)"
  shows "wellFormed \<lparr> width = width img, height = height img, data = pixelLoop f (data img) \<rparr>"
  using assms pixelLoop_length[OF assms(2), of "data img"] pixelLoop_bytes[of "data img" f]
  by (simp add: wellFormed_def)

lemma awb_wellFormed: "wellFormed img \<Longrightarrow> wellFormed (applyAutoWhiteBalance img clipPct)"
  by (simp add: applyAutoWhiteBalance_def Let_def pixelLoop_wellFormed keepsAlpha_awb lutAt_le
      split: prod.splits)

lemma bc_wellFormed: "wellFormed img \<Longrightarrow> wellFormed (applyBrightnessContrast img b c)"
  unfolding applyBrightnessContrast_def Let_def
  by (rule pixelLoop_wellFormed) (simp_all add: keepsAlpha_def bcChannel_def bcValue_def toUint8Clamp_le)

lemma sat_wellFormed: "wellFormed img \<Longrightarrow> wellFormed (applySaturation img s)"
proof (cases "strictEq s (Val 0)")
  case True
  then show "wellFormed img \<Longrightarrow> ?thesis" by (simp add: applySaturation_def)
next
  case False
  assume "wellFormed img"
  then have "wellFormed \<lparr> width = width img, height = height img,
                 data = pixelLoop (satPixel (saturationFactor s)) (data img) \<rparr>"
    by (rule pixelLoop_wellFormed)
       (simp_all add: keepsAlpha_sat satPixel_def toUint8Clamp_le Let_def split: prod.splits)
  with False show ?thesis by (simp add: applySaturation_def Let_def)
qed

lemma noiseChannel_le: "noiseChannel rs sigma v = Some (c, rs') \<Longrightarrow> c \<le> 255"
  by (auto simp: noiseChannel_def toUint8Clamp_le split: option.splits)

lemma noiseLoop_bytes:
  "noiseLoop rs sigma xs = Some (out, rs') \<Longrightarrow> list_all (\<lambda>v. v \<le> 255) xs
     \<Longrightarrow> list_all (\<lambda>v. v \<le> 255) out"
proof (induction rs sigma xs arbitrary: out rs' rule: noiseLoop.induct)
  case (1 rs sigma r g b a rest)
  from 1(2) obtain r' rs1 g' rs2 b' rs3 out' where
    c: "noiseChannel rs sigma r = Some (r', rs1)" "noiseChannel rs1 sigma g = Some (g', rs2)"
       "noiseChannel rs2 sigma b = Some (b', rs3)" "noiseLoop rs3 sigma rest = Some (out', rs')"
    and out: "out = r' # g' # b' # a # out'"
    by (auto split: option.splits)
  from 1(1)[OF c(1) refl c(2) refl c(3) refl c(4)] 1(3)
  have "list_all (\<lambda>v. v \<le> 255) out'" by simp
  with c 1(3) out show ?case by (simp add: noiseChannel_le)
qed simp_all

lemma noiseLoop_length:
  "noiseLoop rs sigma xs = Some (out, rs') \<Longrightarrow> length out = 4 * (length xs div 4)"
proof (induction rs sigma xs arbitrary: out rs' rule: noiseLoop.induct)
  case (1 rs sigma r g b a rest)
  from 1(2) obtain r' rs1 g' rs2 b' rs3 out' where
    c: "noiseChannel rs sigma r = Some (r', rs1)" "noiseChannel rs1 sigma g = Some (g', rs2)"
       "noiseChannel rs2 sigma b = Some (b', rs3)" "noiseLoop rs3 sigma rest = Some (out', rs')"
    and out: "out = r' # g' # b' # a # out'"
    by (auto split: option.splits)
  from 1(1)[OF c(1) refl c(2) refl c(3) refl c(4)] out show ?case by simp
qed simp_all

lemma noise_wellFormed:
  assumes "wellFormed img" and "applyGaussianNoise rs img sigma = Some (out, rs')"
  shows "wellFormed out"
proof (cases "sigma \<le> Val 0")
  case True
  with assms show ?thesis by (simp add: applyGaussianNoise_def)
next
  case False
  with assms(2) obtain d where d: "noiseLoop rs sigma (data img) = Some (d, rs')"
    and out: "out = \<lparr> width = width img, height = height img, data = d \<rparr>"
    by (auto simp: applyGaussianNoise_def split: option.splits)
  from noiseLoop_length[OF d] noiseLoop_bytes[OF d] assms(1) out
  show ?thesis by (simp add: wellFormed_def)
qed

lemma blurPass_length: "length (blurPass krn radius w h sample) = 4 * (w * h)"
proof -
  have row: "length (concat (map (\<lambda>x. map (f x) [0..<4]) [0..<w])) = 4 * w" for f :: "nat \<Rightarrow> nat \<Rightarrow> nat"
    by (induction w) simp_all
  have "length (concat (map (\<lambda>y. concat (map (\<lambda>x. map (g x y) [0..<4]) [0..<w])) [0..<h])) = 4 * (w * h)"
    for g :: "nat \<Rightarrow> nat \<Rightarrow> nat \<Rightarrow> nat"
    by (induction h) (simp_all add: row algebra_simps)
  then show ?thesis by (simp add: blurPass_def)
qed

lemma blurPass_bytes: "list_all (\<lambda>v. v \<le> 255) (blurPass krn radius w h sample)"
  by (simp add: blurPass_def list_all_iff toUint8Clamp_le del: upt_Suc)

lemma blur_wellFormed: "wellFormed img \<Longrightarrow> wellFormed (applyGaussianBlur img s)"
  by (simp add: applyGaussianBlur_def Let_def wellFormed_def blurPass_length blurPass_bytes
      split: prod.splits)


section \<open>The pipeline returns\<close>

lemma pipeline_result:
  assumes "6 * (length (data img) div 4) \<le> nonzeroDraws rs"
  shows "\<exists>out rs'. applyPipeline rs img adj = Some (out, rs') \<and> sameDims img out
           \<and> (wellFormed img \<longrightarrow> wellFormed out)"
proof -
  define img1 where
    "img1 = (if autoWhiteBalance adj then applyAutoWhiteBalance img defaultClipPct else img)"
  have d1: "sameDims img img1" and l1: "length (data img1) div 4 = length (data img) div 4"
    using awb_dims awb_len_div by (auto simp: img1_def sameDims_def)
  have w1: "wellFormed img \<longrightarrow> wellFormed img1"
    by (simp add: img1_def awb_wellFormed)
  have "\<exists>img2 rs'. (if noiseSigma adj > Val 0 then applyGaussianNoise rs img1 (noiseSigma adj)
               else Some (img1, rs)) = Some (img2, rs') \<and> sameDims img1 img2"
    using noiseLoop_len_div[of img1 rs "noiseSigma adj"] assms l1
    by (auto simp: sameDims_def)
  then obtain img2 rs' where
    n: "(if noiseSigma adj > Val 0 then applyGaussianNoise rs img1 (noiseSigma adj)
         else Some (img1, rs)) = Some (img2, rs')"
    and d2: "sameDims img1 img2" by blast
  have w2: "wellFormed img1 \<longrightarrow> wellFormed img2"
    using n noise_wellFormed[of img1 rs "noiseSigma adj" img2 rs']
    by (auto split: if_splits)
  define img3 where "img3 = pipelineBrightnessContrast adj img2"
  define img4 where "img4 = (if strictNe (saturation adj) (Val 0)
                          then applySaturation img3 (saturation adj) else img3)"
  define img5 where "img5 = (if blurPx adj > Val 0 then applyGaussianBlur img4 (blurPx adj)
                          else img4)"
  have d3: "sameDims img2 img3" unfolding img3_def by (rule pbc_dims)
  have d4: "sameDims img3 img4" using sat_dims by (simp add: img4_def sameDims_def)
  have d5: "sameDims img4 img5" using blur_dims by (simp add: img5_def sameDims_def)
  have w3: "wellFormed img2 \<longrightarrow> wellFormed img3"
    by (simp add: img3_def pipelineBrightnessContrast_def bc_wellFormed)
  have w4: "wellFormed img3 \<longrightarrow> wellFormed img4"
    by (simp add: img4_def sat_wellFormed)
  have w5: "wellFormed img4 \<longrightarrow> wellFormed img5"
    by (simp add: img5_def blur_wellFormed)
  have "applyPipeline rs img adj = Some (img5, rs')"
    using n unfolding applyPipeline_def img1_def[symmetric]
    by (simp add: Let_def img3_def img4_def img5_def)
  moreover have "sameDims img img5"
    using d1 d2 d3 d4 d5 by (simp add: sameDims_def)
  moreover have "wellFormed img \<longrightarrow> wellFormed img5"
    using w1 w2 w3 w4 w5 by blast
  ultimately show ?thesis by blast
qed

section \<open>Contrast 100\<close>







section \<open>White balance of a single colour\<close>

lemma singleBin_bump: "singleBin c hist \<Longrightarrow> singleBin c (bump hist c)"
  by (simp add: singleBin_def bump_def)

lemma singleBin_zero: "singleBin c (replicate 256 0)"
  by (simp add: singleBin_def)

lemma histLoop_uniform:
  "singleBin r hr \<Longrightarrow> singleBin g hg \<Longrightarrow> singleBin b hb \<Longrightarrow>
   \<exists>hr' hg' hb'. histLoop (uniformData n r g b a) (hr, hg, hb) = (hr', hg', hb')
      \<and> singleBin r hr' \<and> singleBin g hg' \<and> singleBin b hb'"
proof (induction n arbitrary: hr hg hb)
  case 0
  then show ?case by (simp add: uniformData_def)
next
  case (Suc n)
  from Suc.IH[OF singleBin_bump[OF Suc.prems(1)] singleBin_bump[OF Suc.prems(2)] singleBin_bump[OF Suc.prems(3)]]
  show ?case by (simp add: uniformData_def)
qed

lemma histAt_other: "singleBin c hist \<Longrightarrow> v < 256 \<Longrightarrow> v \<noteq> c \<Longrightarrow> histAt hist v = Val 0"
  by (simp add: singleBin_def histAt_def)

lemma histAt_bin: "singleBin c hist \<Longrightarrow> v < 256 \<Longrightarrow> \<exists>x. histAt hist v = Val x"
  by (simp add: singleBin_def histAt_def)

lemma lowScan_after:
  assumes "singleBin c hist" and "\<not> (Val x > clipN)"
  shows "c < v \<Longrightarrow> lowScan hist clipN v (Val x) = 0"
proof (induction "256 - v" arbitrary: v)
  case 0
  then show ?case by (subst lowScan.simps) simp
next
  case (Suc n)
  then have v: "v < 256" by simp
  with Suc.prems assms have h: "histAt hist v = Val 0" by (simp add: histAt_other)
  have "lowScan hist clipN (v + 1) (Val x) = 0"
    using Suc.hyps(1)[of "v + 1"] Suc.hyps(2) Suc.prems by simp
  with v h assms(2) show ?case by (subst lowScan.simps) (simp add: Let_def)
qed

lemma lowScan_before:
  assumes "singleBin c hist" and "c < 256" and "\<not> (Val 0 > clipN)"
  shows "v \<le> c \<Longrightarrow>
     lowScan hist clipN v (Val 0) = (if histAt hist c > clipN then c else 0)"
proof (induction "c - v" arbitrary: v)
  case 0
  then have vc: "v = c" by simp
  from histAt_bin[OF assms(1,2)] obtain x where x: "histAt hist c = Val x" by blast
  show ?case
  proof (cases "Val x > clipN")
    case True
    with vc x assms(2) show ?thesis by (subst lowScan.simps) (simp add: Let_def)
  next
    case False
    from lowScan_after[OF assms(1) False, of "c + 1"]
    have "lowScan hist clipN (c + 1) (Val x) = 0" by simp
    with False vc x assms(2) show ?thesis by (subst lowScan.simps) (simp add: Let_def)
  qed
next
  case (Suc n)
  then have v: "v < c" by simp
  with assms have h: "histAt hist v = Val 0" by (simp add: histAt_other)
  have "lowScan hist clipN (v + 1) (Val 0) = (if histAt hist c > clipN then c else 0)"
    using Suc.hyps(1)[of "v + 1"] Suc.hyps(2) v by simp
  with v h assms show ?case by (subst lowScan.simps) (simp add: Let_def)
qed

lemma highScan_below:
  assumes "singleBin c hist" and "c < 256" and "\<not> (Val x > clipN)"
  shows "k \<le> c \<Longrightarrow> highScan hist clipN k (Val x) = 255"
proof (induction k)
  case 0
  then show ?case by simp
next
  case (Suc k)
  with assms have h: "histAt hist k = Val 0" by (simp add: histAt_other)
  with Suc assms(3) show ?case by (simp add: Let_def)
qed

lemma highScan_above:
  assumes "singleBin c hist" and "c < 256" and "\<not> (Val 0 > clipN)"
  shows "c < k \<Longrightarrow> k \<le> 256 \<Longrightarrow>
     highScan hist clipN k (Val 0) = (if histAt hist c > clipN then c else 255)"
proof (induction k)
  case 0
  then show ?case by simp
next
  case (Suc k)
  show ?case
  proof (cases "k = c")
    case True
    from histAt_bin[OF assms(1,2)] obtain x where x: "histAt hist c = Val x" by blast
    show ?thesis
    proof (cases "Val x > clipN")
      case True
      with \<open>k = c\<close> x show ?thesis by (simp add: Let_def)
    next
      case False
      from highScan_below[OF assms(1,2) False, of c]
      show ?thesis using False \<open>k = c\<close> x by (simp add: Let_def)
    qed
  next
    case False
    with Suc.prems have kc: "c < k" "k < 256" by simp_all
    with assms have h: "histAt hist k = Val 0" by (simp add: histAt_other)
    from Suc.IH kc have "highScan hist clipN k (Val 0) = (if histAt hist c > clipN then c else 255)"
      by simp
    with h assms(3) show ?thesis by (simp add: Let_def)
  qed
qed

lemma lowHigh_singleBin:
  assumes "singleBin c hist" and "c < 256" and "\<not> (Val 0 > clipN)"
  shows "lowHigh clipN hist = (0, 255)"
proof -
  have lo: "lowScan hist clipN 0 (Val 0) = (if histAt hist c > clipN then c else 0)"
    using lowScan_before[OF assms, of 0] by simp
  have hi: "highScan hist clipN 256 (Val 0) = (if histAt hist c > clipN then c else 255)"
    using highScan_above[OF assms, of 256] assms(2) by simp
  show ?thesis
    unfolding lowHigh_def lo hi by (simp add: Let_def)
qed

lemma math_max_zero_not_neg: "\<not> (Val 0 > Math_max (Val 0) x)"
  by (cases x) (auto simp: Math_max_def)

lemma clipCount_not_neg: "\<not> (Val 0 > clipCount n p)"
  unfolding clipCount_def by (rule math_max_zero_not_neg)

lemma lutEntry_identity: "v \<le> 255 \<Longrightarrow> lutEntry (byte 0) (byte 255) v = v"
  by (simp add: lutEntry_def lutRange_def orElse_def byte_def Let_def)

lemma lutAt_identity: "v \<le> 255 \<Longrightarrow> lutAt (makeLut (byte 0) (byte 255)) v = v"
  by (simp add: lutAt_def makeLut_def lutEntry_identity)

lemma makeLut_identity: "makeLut (byte 0) (byte 255) = [0..<256]"
proof -
  have "map (lutEntry (byte 0) (byte 255)) [0..<256] = map (\<lambda>v. v) [0..<256]"
    by (intro map_cong) (simp_all add: lutEntry_identity)
  then show ?thesis by (simp add: makeLut_def)
qed

lemma pixelLoop_copy: "pixelLoop (\<lambda>r g b a. [r, g, b, a]) (uniformData n r g b a) = uniformData n r g b a"
  by (induction n) (simp_all add: uniformData_def)

lemma uniformData_bytes:
  "r \<le> 255 \<Longrightarrow> g \<le> 255 \<Longrightarrow> b \<le> 255 \<Longrightarrow> a \<le> 255 \<Longrightarrow> list_all (\<lambda>v. v \<le> 255) (uniformData n r g b a)"
  by (induction n) (simp_all add: uniformData_def)

lemma awb_uniform:
  assumes "r \<le> 255" "g \<le> 255" "b \<le> 255" "a \<le> 255"
  shows "applyAutoWhiteBalance \<lparr> width = w, height = h, data = uniformData (w * h) r g b a \<rparr> clipPct
       = \<lparr> width = w, height = h, data = uniformData (w * h) r g b a \<rparr>"
proof (cases "w * h = 0")
  case True
  then show ?thesis by (simp add: applyAutoWhiteBalance_def)
next
  case False
  let ?d = "uniformData (w * h) r g b a"
  from histLoop_uniform[OF singleBin_zero singleBin_zero singleBin_zero, where n = "w * h" and a = a and r = r and g = g and b = b]
  obtain hr hg hb where hl: "histLoop ?d (replicate 256 0, replicate 256 0, replicate 256 0) = (hr, hg, hb)"
    and sb: "singleBin r hr" "singleBin g hg" "singleBin b hb" by blast
  let ?c = "clipCount (w * h) clipPct"
  have lh: "lowHigh ?c hr = (0, 255)" "lowHigh ?c hg = (0, 255)" "lowHigh ?c hb = (0, 255)"
    using sb assms clipCount_not_neg by (simp_all add: lowHigh_singleBin)
  have "pixelLoop (\<lambda>r g b a. [lutAt (makeLut (byte 0) (byte 255)) r, lutAt (makeLut (byte 0) (byte 255)) g,
                              lutAt (makeLut (byte 0) (byte 255)) b, a]) ?d
        = pixelLoop (\<lambda>r g b a. [r, g, b, a]) ?d"
    by (rule pixelLoop_cong_bytes[where P="\<lambda>v. v \<le> 255"])
       (simp_all add: uniformData_bytes assms lutAt_identity)
  with False hl lh show ?thesis
    by (simp add: applyAutoWhiteBalance_def Let_def pixelLoop_copy)
qed


section \<open>Rounding to binary32\<close>

lemma roundHalfEven_error: "\<bar>of_int (roundHalfEven y) - y\<bar> \<le> 1 / 2"
  unfolding roundHalfEven_def Let_def
  by (auto simp: abs_le_iff)

lemma two_powr_floor_log_le:
  assumes "x \<noteq> 0"
  shows "2 powr of_int \<lfloor>log 2 \<bar>x\<bar>\<rfloor> \<le> \<bar>x\<bar>"
proof -
  have "2 powr of_int \<lfloor>log 2 \<bar>x\<bar>\<rfloor> \<le> 2 powr (log 2 \<bar>x\<bar>)"
    by (rule powr_mono) simp_all
  also have "\<dots> = \<bar>x\<bar>" using assms by simp
  finally show ?thesis .
qed

lemma two_powr_neg24: "(2::real) powr (- 24) = 1 / 2 ^ 24"
  by (simp add: powr_minus_divide)

lemma two_powr_neg150: "(2::real) powr (- 150) = 1 / 2 ^ 150"
  by (simp add: powr_minus_divide)

lemma fround_error: "\<bar>fround x - x\<bar> \<le> \<bar>x\<bar> / 2 ^ 24 + 1 / 2 ^ 150"
proof (cases "x = 0")
  case True
  then show ?thesis by (simp add: fround_def)
next
  case False
  define e where "e = max (- 126) \<lfloor>log 2 \<bar>x\<bar>\<rfloor>"
  define q :: real where "q = 2 powr of_int (e - 23)"
  have q0: "0 < q" by (simp add: q_def)
  have fr: "fround x = of_int (roundHalfEven (x / q)) * q"
    using False by (simp add: fround_def Let_def e_def q_def)
  have "\<bar>fround x - x\<bar> = \<bar>of_int (roundHalfEven (x / q)) - x / q\<bar> * q"
  proof -
    have "fround x - x = (of_int (roundHalfEven (x / q)) - x / q) * q"
      using q0 by (simp add: fr field_simps)
    then show ?thesis using q0 by (simp add: abs_mult)
  qed
  also have "\<dots> \<le> (1 / 2) * q"
    using roundHalfEven_error[of "x / q"] q0 by (intro mult_right_mono) simp_all
  also have "\<dots> = 2 powr of_int (e - 24)"
  proof -
    have "(2::real) powr of_int (e - 23) = 2 powr (of_int (e - 24) + 1)" by simp
    also have "\<dots> = 2 powr of_int (e - 24) * 2" by (simp only: powr_add) simp
    finally show ?thesis by (simp add: q_def)
  qed
  also have "\<dots> \<le> \<bar>x\<bar> / 2 ^ 24 + 1 / 2 ^ 150"
  proof (cases "- 126 \<le> \<lfloor>log 2 \<bar>x\<bar>\<rfloor>")
    case True
    then have e: "e = \<lfloor>log 2 \<bar>x\<bar>\<rfloor>" by (simp add: e_def)
    have "(2::real) powr of_int (e - 24) = 2 powr (of_int e) * 2 powr (- 24)"
      by (simp add: powr_add[symmetric])
    also have "\<dots> = 2 powr (of_int e) / 2 ^ 24"
      by (simp only: two_powr_neg24) simp
    also have "\<dots> \<le> \<bar>x\<bar> / 2 ^ 24"
      using two_powr_floor_log_le[OF False] by (simp add: e divide_right_mono)
    finally show ?thesis by simp
  next
    case False
    then have e: "e = - 126" by (simp add: e_def)
    have "(2::real) powr of_int (e - 24) = 2 powr (- 150)" by (simp add: e)
    also have "\<dots> = 1 / 2 ^ 150" by (rule two_powr_neg150)
    finally show ?thesis by simp
  qed
  finally show ?thesis .
qed


lemma fround_abs_le: "\<bar>fround x\<bar> \<le> \<bar>x\<bar> + \<bar>x\<bar> / 2 ^ 24 + 1 / 2 ^ 150"
  using fround_error[of x] by linarith

lemma toFloat32_val: "\<bar>x\<bar> \<le> 3 \<Longrightarrow> toFloat32 (Val x) = Val (fround x)"
proof -
  assume x: "\<bar>x\<bar> \<le> 3"
  have "\<bar>x\<bar> / 2 ^ 24 \<le> \<bar>x\<bar>" by (simp add: field_simps)
  with fround_abs_le[of x] x have "\<bar>fround x\<bar> \<le> 7" by simp
  then have "\<not> 2 ^ 128 \<le> \<bar>fround x\<bar>" by simp
  then show ?thesis by (simp add: Let_def)
qed

lemma two_roundings_gen:
  fixes f :: "real \<Rightarrow> real"
  assumes bound: "\<And>x. \<bar>f x - x\<bar> \<le> \<bar>x\<bar> * e + n"
    and e: "0 \<le> e" "e \<le> 1" and n: "0 \<le> n"
    and v: "0 < v" and S: "1 \<le> S"
  shows "\<bar>f (f v / S) - v / S\<bar> \<le> (v / S) * (3 * e) + 3 * n"
proof -
  define t where "t = 1 / S"
  define u where "u = v * t"
  define aS where "aS = f v * t"
  have t0: "0 < t" and t1: "t \<le> 1" using S by (simp_all add: t_def field_simps)
  have u0: "0 \<le> u" using v t0 by (simp add: u_def)
  have h1: "\<bar>f v - v\<bar> \<le> v * e + n" using bound[of v] v by simp
  have "\<bar>aS - u\<bar> = \<bar>f v - v\<bar> * t"
    using t0 by (simp add: aS_def u_def left_diff_distrib[symmetric] abs_mult)
  also have "\<dots> \<le> (v * e + n) * t"
    using h1 t0 by (intro mult_right_mono) simp_all
  also have "\<dots> = u * e + n * t" by (simp add: u_def algebra_simps)
  finally have h3: "\<bar>aS - u\<bar> \<le> u * e + n * t" .
  have h2: "\<bar>f aS - aS\<bar> \<le> \<bar>aS\<bar> * e + n" by (rule bound)
  have nt: "n * t \<le> n" using n t1 t0 by (simp add: mult_left_le)
  have nt0: "0 \<le> n * t" using n t0 by simp
  have ue0: "0 \<le> u * e" using u0 e by simp
  have uee: "u * e * e \<le> u * e" using ue0 e by (simp add: mult_left_le)
  have nte: "n * t * e \<le> n * t" using nt0 e by (simp add: mult_left_le)
  have "\<bar>aS\<bar> \<le> u + (u * e + n * t)" using h3 u0 by linarith
  then have "\<bar>aS\<bar> * e \<le> (u + (u * e + n * t)) * e"
    using e by (intro mult_right_mono) simp_all
  also have "\<dots> = u * e + u * e * e + n * t * e" by (simp add: algebra_simps)
  finally have h4: "\<bar>aS\<bar> * e \<le> u * e + u * e * e + n * t * e" .
  have "\<bar>f aS - u\<bar> \<le> 3 * (u * e) + 3 * n"
    using h2 h3 h4 nt uee nte by linarith
  then show ?thesis by (simp add: aS_def u_def t_def algebra_simps)
qed

lemma fround_error': "\<bar>fround x - x\<bar> \<le> \<bar>x\<bar> * (1 / 2 ^ 24) + 1 / 2 ^ 150"
  using fround_error[of x] by simp

lemma two_roundings:
  assumes "0 < v" and "v \<le> 1" and "1 \<le> S"
  shows "\<bar>fround (fround v / S) - v / S\<bar> \<le> (v / S) * (3 * (1 / 2 ^ 24)) + 3 * (1 / 2 ^ 150)"
  by (rule two_roundings_gen[OF fround_error' _ _ _ assms(1,3)]) simp_all

lemma fround_unit_le:
  assumes "0 < v" and "v \<le> 1"
  shows "\<bar>fround v\<bar> \<le> 3"
proof -
  define a where "a = \<bar>v\<bar> / 2 ^ 24"
  define c :: real where "c = 1 / 2 ^ 150"
  have "a \<le> \<bar>v\<bar>" by (simp add: a_def field_simps)
  moreover have "c \<le> 1 / 2" by (simp add: c_def)
  moreover have "\<bar>fround v\<bar> \<le> \<bar>v\<bar> + a + c"
    using fround_abs_le[of v] by (simp add: a_def c_def)
  ultimately show ?thesis using assms by linarith
qed

lemma fround_unit_div_le:
  assumes "0 < v" and "v \<le> 1" and "1 \<le> S"
  shows "\<bar>fround v / S\<bar> \<le> 3"
proof -
  have "1 * \<bar>fround v\<bar> \<le> S * \<bar>fround v\<bar>"
    using assms(3) by (intro mult_right_mono) simp_all
  then have "\<bar>fround v\<bar> / S \<le> \<bar>fround v\<bar>"
    using assms(3) by (simp add: field_simps)
  moreover have "\<bar>fround v / S\<bar> = \<bar>fround v\<bar> / S" using assms(3) by simp
  ultimately show ?thesis using fround_unit_le[OF assms(1,2)] by linarith
qed


section \<open>The kernel\<close>

lemma gaussWeight_range: "0 < gaussWeight sigma i \<and> gaussWeight sigma i \<le> 1"
  by (cases sigma) (simp_all add: gaussWeight_def)

lemma gaussWeight_zero: "gaussWeight sigma 0 = 1"
  by (cases sigma) (simp_all add: gaussWeight_def)

lemma kernelRadius_range: "1 \<le> kernelRadius sigma \<and> kernelRadius sigma \<le> 20"
  by (cases sigma) (simp_all add: kernelRadius_def)

lemma foldl_plus_val:
  "foldl (+) (Val a) (map (\<lambda>i. Val (f i)) xs) = Val (a + sum_list (map f xs))"
  by (induction xs arbitrary: a) (simp_all add: add.assoc)

lemma radius_val:
  assumes "s > 0.1"
  shows "Math_max (Val 1) (Math_min (Val 20) (Math_ceil (Val s * Val 3)))
          = Val (of_int (kernelRadius (Val s)))"
  by (simp add: kernelRadius_def)

lemma exp_val:
  assumes "s > 0.1"
  shows "Math_exp (- (Val (of_int i) * Val (of_int i)) / (Val 2 * (Val s * Val s)))
          = Val (gaussWeight (Val s) i)"
  using assms by (simp add: gaussWeight_def)

lemma exp_inf:
  "Math_exp (- (Val (of_int i) * Val (of_int i)) / (Val 2 * (PosInf * PosInf)))
          = Val (gaussWeight PosInf i)"
  by (simp add: gaussWeight_def signInf_def)

lemma radius_inf:
  "Math_max (Val 1) (Math_min (Val 20) (Math_ceil (PosInf * Val 3)))
          = Val (of_int (kernelRadius PosInf))"
  by (simp add: kernelRadius_def signInf_def Math_min_def)

lemma sum_weights_ge_1: "1 \<le> sum_list (map (gaussWeight sigma) [- kernelRadius sigma .. kernelRadius sigma])"
proof -
  let ?K = "kernelRadius sigma"
  have "sum_list (map (gaussWeight sigma) [- ?K .. ?K]) = sum (gaussWeight sigma) {- ?K .. ?K}"
    by (simp add: sum_set_upto_conv_sum_list_int[symmetric])
  moreover have "gaussWeight sigma 0 \<le> sum (gaussWeight sigma) {- ?K .. ?K}"
    using kernelRadius_range[of sigma] gaussWeight_range[of sigma]
    by (intro member_le_sum) (auto simp: less_imp_le)
  ultimately show ?thesis by (simp add: gaussWeight_zero)
qed

lemma kernel_shape:
  assumes "sigma > Val 0.1"
  shows "makeGaussianKernel sigma
          = (map (\<lambda>i. Val (storedWeight sigma i)) [- kernelRadius sigma .. kernelRadius sigma],
             Val (of_int (kernelRadius sigma)))"
proof -
  let ?K = "kernelRadius sigma"
  let ?S = "sum_list (map (gaussWeight sigma) [- ?K .. ?K])"
  have ng: "\<not> sigma \<le> Val 0.1" using assms by (cases sigma) auto
  have rad: "Math_max (Val 1) (Math_min (Val 20) (Math_ceil (sigma * Val 3))) = Val (of_int ?K)"
  proof (cases sigma)
    case (Val s)
    with assms have "s > 0.1" by simp
    then show ?thesis unfolding Val by (rule radius_val)
  next
    case PosInf
    show ?thesis unfolding PosInf by (rule radius_inf)
  qed (use assms in simp_all)
  have ex: "\<And>i. Math_exp (- (Val (of_int i) * Val (of_int i)) / (Val 2 * (sigma * sigma)))
              = Val (gaussWeight sigma i)"
  proof (cases sigma)
    case (Val s)
    with assms have "s > 0.1" by simp
    then show "\<And>i. Math_exp (- (Val (of_int i) * Val (of_int i)) / (Val 2 * (sigma * sigma)))
              = Val (gaussWeight sigma i)" unfolding Val by (rule exp_val)
  next
    case PosInf
    show "\<And>i. Math_exp (- (Val (of_int i) * Val (of_int i)) / (Val 2 * (sigma * sigma)))
              = Val (gaussWeight sigma i)" unfolding PosInf by (rule exp_inf)
  qed (use assms in simp_all)
  have S1: "1 \<le> ?S" by (rule sum_weights_ge_1)
  have st: "\<And>i. toFloat32 (toFloat32 (Val (gaussWeight sigma i)) / Val ?S) = Val (storedWeight sigma i)"
  proof -
    fix i
    have g: "0 < gaussWeight sigma i" "gaussWeight sigma i \<le> 1"
      using gaussWeight_range[of sigma i] by simp_all
    have "toFloat32 (Val (gaussWeight sigma i)) = Val (fround (gaussWeight sigma i))"
      using g by (intro toFloat32_val) simp
    moreover have "Val (fround (gaussWeight sigma i)) / Val ?S = Val (fround (gaussWeight sigma i) / ?S)"
      using S1 by simp
    moreover have "toFloat32 (Val (fround (gaussWeight sigma i) / ?S)) = Val (storedWeight sigma i)"
      unfolding storedWeight_def
      using fround_unit_div_le[OF g S1] by (intro toFloat32_val)
    ultimately show "toFloat32 (toFloat32 (Val (gaussWeight sigma i)) / Val ?S) = Val (storedWeight sigma i)"
      by simp
  qed
  have vs: "map (\<lambda>i. Math_exp (- (Val (of_int i) * Val (of_int i)) / (Val 2 * (sigma * sigma))))
              (offsets (Val (of_int ?K)))
            = map (\<lambda>i. Val (gaussWeight sigma i)) [- ?K .. ?K]"
    by (simp only: ex offsets.simps floor_of_int)
  have sm: "foldl (+) (Val 0) (map (\<lambda>i. Val (gaussWeight sigma i)) [- ?K .. ?K]) = Val ?S"
    by (simp add: foldl_plus_val)
  have kr: "map (\<lambda>w. toFloat32 (w / Val ?S))
              (map toFloat32 (map (\<lambda>i. Val (gaussWeight sigma i)) [- ?K .. ?K]))
            = map (\<lambda>i. Val (storedWeight sigma i)) [- ?K .. ?K]"
    by (simp only: map_map comp_def st)
  show ?thesis
    unfolding makeGaussianKernel_def using ng
    by (simp only: if_False Let_def rad vs sm kr)
qed

lemma stored_sum_close:
  "\<bar>sum_list (map (storedWeight sigma) [- kernelRadius sigma .. kernelRadius sigma]) - 1\<bar>
     \<le> 1 / 1000000"
proof -
  let ?K = "kernelRadius sigma"
  let ?g = "gaussWeight sigma"
  let ?S = "sum ?g {- ?K .. ?K}"
  let ?e = "3 * (1 / 2 ^ 24) :: real"
  let ?n = "3 * (1 / 2 ^ 150) :: real"
  have Seq: "sum_list (map ?g [- ?K .. ?K]) = ?S"
    by (simp add: sum_set_upto_conv_sum_list_int[symmetric])
  have S1: "1 \<le> ?S" using sum_weights_ge_1[of sigma] Seq by simp
  have sw: "\<And>i. storedWeight sigma i = fround (fround (?g i) / ?S)"
    by (simp add: storedWeight_def Seq)
  have tm: "\<And>i. \<bar>storedWeight sigma i - ?g i / ?S\<bar> \<le> (?g i / ?S) * ?e + ?n"
    unfolding sw using gaussWeight_range[of sigma] S1 by (intro two_roundings) simp_all
  have one: "(\<Sum>i = - ?K .. ?K. ?g i / ?S) = 1"
    using S1 by (simp add: sum_divide_distrib[symmetric])
  have "sum_list (map (storedWeight sigma) [- ?K .. ?K]) - 1
          = (\<Sum>i = - ?K .. ?K. storedWeight sigma i - ?g i / ?S)"
    by (simp add: sum_set_upto_conv_sum_list_int[symmetric] sum_subtractf one)
  also have "\<bar>\<dots>\<bar> \<le> (\<Sum>i = - ?K .. ?K. \<bar>storedWeight sigma i - ?g i / ?S\<bar>)"
    by (rule sum_abs)
  also have "\<dots> \<le> (\<Sum>i = - ?K .. ?K. (?g i / ?S) * ?e + ?n)"
    by (intro sum_mono tm)
  also have "\<dots> = ?e + of_int (2 * ?K + 1) * ?n"
  proof -
    have "(\<Sum>i = - ?K .. ?K. (?g i / ?S) * ?e + ?n)
            = (\<Sum>i = - ?K .. ?K. ?g i / ?S) * ?e + (\<Sum>i = - ?K .. ?K. ?n)"
      by (simp only: sum.distrib sum_distrib_right)
    also have "(\<Sum>i = - ?K .. ?K. ?n) = of_int (2 * ?K + 1) * ?n"
      using kernelRadius_range[of sigma] by simp
    finally show ?thesis by (simp only: one mult_1)
  qed
  also have "\<dots> \<le> ?e + 41 * ?n"
  proof -
    have "of_int (2 * ?K + 1) \<le> (41::real)"
      using kernelRadius_range[of sigma] by simp
    then have "of_int (2 * ?K + 1) * ?n \<le> 41 * ?n"
      by (intro mult_right_mono) simp_all
    then show ?thesis by simp
  qed
  also have "\<dots> \<le> 1 / 1000000" by simp
  finally show ?thesis .
qed


section \<open>Blurring a uniform buffer\<close>

lemma uniformData_length: "length (uniformData n r g b a) = 4 * n"
  by (induction n) (simp_all add: uniformData_def)

lemma uniformData_Suc: "uniformData (Suc n) r g b a = [r, g, b, a] @ uniformData n r g b a"
  by (simp add: uniformData_def)

lemma less_4_cases: "j < 4 \<Longrightarrow> j = 0 \<or> j = 1 \<or> j = 2 \<or> j = (3::nat)"
  by arith

lemma uniformData_nth:
  "p < n \<Longrightarrow> j < 4 \<Longrightarrow> uniformData n r g b a ! (4 * p + j) = [r, g, b, a] ! j"
proof (induction n arbitrary: p)
  case 0
  then show ?case by simp
next
  case (Suc n)
  show ?case
  proof (cases p)
    case 0
    with less_4_cases[OF Suc.prems(2)] show ?thesis by (auto simp: uniformData_Suc)
  next
    case (Suc q)
    with Suc.prems have "q < n" by simp
    from Suc.IH[OF this Suc.prems(2)]
    have "uniformData n r g b a ! (4 * q + j) = [r, g, b, a] ! j" .
    moreover have "4 * p + j = 4 + (4 * q + j)" using Suc by simp
    ultimately show ?thesis
      by (simp only: uniformData_Suc nth_append) simp
  qed
qed

lemma srcAt_uniform:
  assumes "p < n" and "j < 4"
  shows "srcAt (uniformData n r g b a) (int p * 4 + int j) = byte ([r, g, b, a] ! j)"
proof -
  have "int p * 4 + int j = int (4 * p + j)" by simp
  moreover have "4 * p + j < 4 * n" using assms by simp
  ultimately show ?thesis
    using uniformData_nth[OF assms, of r g b a]
    by (simp only: srcAt_def uniformData_length nat_int) simp
qed

lemma clampIndex_range: "0 < n \<Longrightarrow> 0 \<le> clampIndex i n \<and> clampIndex i n < int n"
  by (simp add: clampIndex_def)

lemma pixel_index_bound:
  fixes x y w h :: nat
  assumes "x < w" and "y < h"
  shows "y * w + x < w * h"
proof -
  have "y * w + x < y * w + w" using assms(1) by simp
  also have "\<dots> = Suc y * w" by simp
  also have "\<dots> \<le> h * w" using assms(2) by (intro mult_le_mono1) simp
  finally show ?thesis by (simp add: mult.commute)
qed

lemma hSample_uniform:
  assumes "x < w" and "y < h" and "j < 4"
  shows "hSample (uniformData (w * h) r g b a) w x y k j = byte ([r, g, b, a] ! j)"
proof -
  from assms(1) have w0: "0 < w" by simp
  define xx where "xx = nat (clampIndex (int x + k) w)"
  have xx: "xx < w" and cx: "clampIndex (int x + k) w = int xx"
    using clampIndex_range[OF w0, of "int x + k"] unfolding xx_def by arith+
  have p: "y * w + xx < w * h" using xx assms(2) by (rule pixel_index_bound)
  have "(int y * int w + clampIndex (int x + k) w) * 4 + int j = int (y * w + xx) * 4 + int j"
    by (simp add: cx)
  then show ?thesis
    unfolding hSample_def using srcAt_uniform[OF p assms(3), of r g b a] by (simp only:)
qed

lemma vSample_uniform:
  assumes "x < w" and "y < h" and "j < 4"
  shows "vSample (uniformData (w * h) r g b a) w h x y k j = byte ([r, g, b, a] ! j)"
proof -
  from assms(2) have h0: "0 < h" by simp
  define yy where "yy = nat (clampIndex (int y + k) h)"
  have yy: "yy < h" and cy: "clampIndex (int y + k) h = int yy"
    using clampIndex_range[OF h0, of "int y + k"] unfolding yy_def by arith+
  have p: "yy * w + x < w * h" using assms(1) yy by (rule pixel_index_bound)
  have "(clampIndex (int y + k) h * int w + int x) * 4 + int j = int (yy * w + x) * 4 + int j"
    by (simp add: cy)
  then show ?thesis
    unfolding vSample_def using srcAt_uniform[OF p assms(3), of r g b a] by (simp only:)
qed

lemma foldl_weighted_const:
  assumes "\<And>k. k \<in> set xs \<Longrightarrow> wt k = Val (f k)"
  shows "foldl (\<lambda>acc k. acc + Val c * wt k) (Val t) xs = Val (t + c * sum_list (map f xs))"
  using assms
  by (induction xs arbitrary: t) (simp_all add: algebra_simps)

lemma kernelAt_stored:
  assumes "k \<in> set [- K .. K]"
  shows "kernelAt (map (\<lambda>i. Val (sw i)) [- K .. K]) (Val (of_int K)) k = Val (sw k)"
proof -
  from assms have k: "- K \<le> k" "k \<le> K" by simp_all
  then have i: "0 \<le> k + K" and len: "nat (k + K) < length [- K .. K]" by simp_all
  have "[- K .. K] ! nat (k + K) = - K + int (nat (k + K))"
    using k by (intro nth_upto) simp
  also have "\<dots> = k" using i by simp
  finally have "[- K .. K] ! nat (k + K) = k" .
  with i len show ?thesis by (simp add: Let_def)
qed

lemma weighted_const:
  "weighted (map (\<lambda>i. Val (sw i)) [- K .. K]) (Val (of_int K)) (\<lambda>k. Val c)
     = Val (c * sum_list (map sw [- K .. K]))"
proof -
  have "foldl (\<lambda>acc k. acc + Val c * kernelAt (map (\<lambda>i. Val (sw i)) [- K .. K]) (Val (of_int K)) k)
          (Val 0) [- K .. K]
        = Val (0 + c * sum_list (map sw [- K .. K]))"
    by (rule foldl_weighted_const) (rule kernelAt_stored)
  then show ?thesis by (simp add: weighted_def)
qed

lemma roundHalfEven_near:
  assumes "\<bar>x - of_int n\<bar> < 1 / 2"
  shows "roundHalfEven x = n"
proof (cases "of_int n \<le> x")
  case True
  with assms have "\<lfloor>x\<rfloor> = n" by (intro floor_unique) (simp_all add: abs_less_iff)
  with assms True show ?thesis by (simp add: roundHalfEven_def Let_def abs_less_iff)
next
  case False
  with assms have "\<lfloor>x\<rfloor> = n - 1" by (intro floor_unique) (simp_all add: abs_less_iff)
  with assms False show ?thesis by (simp add: roundHalfEven_def Let_def abs_less_iff)
qed

lemma store_scaled_byte:
  assumes "c \<le> 255" and "\<bar>T - 1\<bar> \<le> 1 / 1000000"
  shows "toUint8Clamp (Val (real c * T)) = c"
proof (cases "c = 0")
  case True
  then show ?thesis by simp
next
  case False
  then have c1: "1 \<le> real c" by simp
  have c255: "real c \<le> 255" using assms(1) by simp
  have "real c * T - real c = real c * (T - 1)" by (simp add: algebra_simps)
  then have "\<bar>real c * T - real c\<bar> = real c * \<bar>T - 1\<bar>"
    by (simp only: abs_mult abs_of_nat)
  also have "\<dots> \<le> 255 * (1 / 1000000)"
    using c255 assms(2) by (intro mult_mono) simp_all
  finally have d: "\<bar>real c * T - real c\<bar> \<le> 255 / 1000000" by simp
  then have lo: "real c - 255 / 1000000 \<le> real c * T"
    and hi: "real c * T \<le> real c + 255 / 1000000" by linarith+
  have "\<bar>real c * T - real c\<bar> < 1 / 2" using d by linarith
  then have near: "\<bar>real c * T - of_int (int c)\<bar> < 1 / 2" by simp
  have pos: "\<not> real c * T \<le> 0" using lo c1 by linarith
  show ?thesis
  proof (cases "255 \<le> real c * T")
    case True
    with hi have "254 < real c" by linarith
    then have "254 < c" by simp
    with assms(1) have "c = 255" by simp
    with True pos show ?thesis by simp
  next
    case False
    with pos roundHalfEven_near[OF near] show ?thesis by simp
  qed
qed


lemma uniformData_add: "uniformData (m + n) r g b a = uniformData m r g b a @ uniformData n r g b a"
  by (simp add: uniformData_def replicate_add)

lemma concat_replicate_uniform:
  "concat (replicate h (uniformData w r g b a)) = uniformData (h * w) r g b a"
  by (induction h) (simp_all add: uniformData_add, simp add: uniformData_def)

lemma byte_list_nth:
  assumes "r \<le> 255" "g \<le> 255" "b \<le> 255" "a \<le> 255" "j < 4"
  shows "[r, g, b, a] ! j \<le> (255::nat)"
  using less_4_cases[OF assms(5)] assms(1-4) by auto

lemma blurPass_uniform:
  assumes sample: "\<And>x y k j. x < w \<Longrightarrow> y < h \<Longrightarrow> j < 4 \<Longrightarrow> sample x y k j = byte ([r, g, b, a] ! j)"
    and bytes: "r \<le> 255" "g \<le> 255" "b \<le> 255" "a \<le> 255"
    and T: "\<bar>sum_list (map sw [- K .. K]) - 1\<bar> \<le> 1 / 1000000"
  shows "blurPass (map (\<lambda>i. Val (sw i)) [- K .. K]) (Val (of_int K)) w h sample
           = uniformData (w * h) r g b a"
proof -
  let ?krn = "map (\<lambda>i. Val (sw i)) [- K .. K]"
  let ?R = "Val (of_int K)"
  have chan: "toUint8Clamp (weighted ?krn ?R (\<lambda>k. sample x y k j)) = [r, g, b, a] ! j"
    if "x < w" "y < h" "j < 4" for x y j
  proof -
    have "(\<lambda>k. sample x y k j) = (\<lambda>k. Val (real ([r, g, b, a] ! j)))"
      using sample[OF that] by (simp add: byte_def)
    then have "weighted ?krn ?R (\<lambda>k. sample x y k j)
                 = Val (real ([r, g, b, a] ! j) * sum_list (map sw [- K .. K]))"
      by (simp only: weighted_const)
    then show ?thesis
      using store_scaled_byte[OF byte_list_nth[OF bytes that(3)] T] by simp
  qed
  have px: "map (\<lambda>j. toUint8Clamp (weighted ?krn ?R (\<lambda>k. sample x y k j))) [0..<4] = [r, g, b, a]"
    if "x < w" "y < h" for x y
  proof -
    have "map (\<lambda>j. toUint8Clamp (weighted ?krn ?R (\<lambda>k. sample x y k j))) [0..<4]
            = map (\<lambda>j. [r, g, b, a] ! j) [0..<4]"
      using chan[OF that] by (intro map_cong) simp_all
    also have "\<dots> = [r, g, b, a]" by (simp add: upt_rec)
    finally show ?thesis .
  qed
  have row: "concat (map (\<lambda>x. map (\<lambda>j. toUint8Clamp (weighted ?krn ?R (\<lambda>k. sample x y k j))) [0..<4]) [0..<w])
               = uniformData w r g b a"
    if "y < h" for y
  proof -
    have "map (\<lambda>x. map (\<lambda>j. toUint8Clamp (weighted ?krn ?R (\<lambda>k. sample x y k j))) [0..<4]) [0..<w]
            = map (\<lambda>x. [r, g, b, a]) [0..<w]"
      using px[OF _ that] by (intro map_cong) simp_all
    then show ?thesis by (simp add: uniformData_def map_replicate_const)
  qed
  have "map (\<lambda>y. concat (map (\<lambda>x. map (\<lambda>j. toUint8Clamp (weighted ?krn ?R (\<lambda>k. sample x y k j))) [0..<4]) [0..<w])) [0..<h]
          = map (\<lambda>y. uniformData w r g b a) [0..<h]"
    using row by (intro map_cong) simp_all
  then show ?thesis
    by (simp add: blurPass_def map_replicate_const concat_replicate_uniform mult.commute)
qed

lemma blur_uniform:
  assumes "sigma > Val 0.1" and "r \<le> 255" "g \<le> 255" "b \<le> 255" "a \<le> 255"
  shows "applyGaussianBlur \<lparr> width = w, height = h, data = uniformData (w * h) r g b a \<rparr> sigma
           = \<lparr> width = w, height = h, data = uniformData (w * h) r g b a \<rparr>"
proof -
  let ?K = "kernelRadius sigma"
  let ?krn = "map (\<lambda>i. Val (storedWeight sigma i)) [- ?K .. ?K]"
  let ?src = "uniformData (w * h) r g b a"
  have ng: "\<not> sigma \<le> Val 0.1" using assms(1) by (cases sigma) auto
  have k: "makeGaussianKernel sigma = (?krn, Val (of_int ?K))"
    using assms(1) by (rule kernel_shape)
  have tmp: "blurPass ?krn (Val (of_int ?K)) w h (hSample ?src w) = ?src"
    by (rule blurPass_uniform[OF hSample_uniform assms(2-5) stored_sum_close])
  have out: "blurPass ?krn (Val (of_int ?K)) w h (vSample ?src w h) = ?src"
    by (rule blurPass_uniform[OF vSample_uniform assms(2-5) stored_sum_close])
  show ?thesis
    using ng by (simp add: applyGaussianBlur_def k Let_def tmp out)
qed

lemma kernel_sum:
  assumes "sigma > Val 0.1"
  shows "\<exists>t. sumOf (fst (makeGaussianKernel sigma)) = Val t \<and> \<bar>t - 1\<bar> \<le> 1 / 100000"
proof -
  let ?K = "kernelRadius sigma"
  have "sumOf (fst (makeGaussianKernel sigma))
          = Val (0 + sum_list (map (storedWeight sigma) [- ?K .. ?K]))"
    unfolding kernel_shape[OF assms] sumOf_def fst_conv by (rule foldl_plus_val)
  moreover have "\<bar>sum_list (map (storedWeight sigma) [- ?K .. ?K]) - 1\<bar> \<le> 1 / 100000"
    using stored_sum_close[of sigma] by simp
  ultimately show ?thesis by simp
qed


section \<open>Rounding to binary64\<close>

lemma two_powr_neg53: "(2::real) powr (- 53) = 1 / 2 ^ 53"
  by (simp add: powr_minus_divide)

lemma two_powr_neg1075: "(2::real) powr (- 1075) = 1 / 2 ^ 1075"
  by (simp add: powr_minus_divide)

lemma round64_error: "\<bar>round64 x - x\<bar> \<le> \<bar>x\<bar> / 2 ^ 53 + 1 / 2 ^ 1075"
proof (cases "x = 0")
  case True
  then show ?thesis by (simp add: round64_def)
next
  case False
  define e where "e = max (- 1022) \<lfloor>log 2 \<bar>x\<bar>\<rfloor>"
  define q :: real where "q = 2 powr of_int (e - 52)"
  have q0: "0 < q" by (simp add: q_def)
  have fr: "round64 x = of_int (roundHalfEven (x / q)) * q"
    using False by (simp add: round64_def Let_def e_def q_def)
  have "\<bar>round64 x - x\<bar> = \<bar>of_int (roundHalfEven (x / q)) - x / q\<bar> * q"
  proof -
    have "round64 x - x = (of_int (roundHalfEven (x / q)) - x / q) * q"
      using q0 by (simp add: fr field_simps)
    then show ?thesis using q0 by (simp add: abs_mult)
  qed
  also have "\<dots> \<le> (1 / 2) * q"
    using roundHalfEven_error[of "x / q"] q0 by (intro mult_right_mono) simp_all
  also have "\<dots> = 2 powr of_int (e - 53)"
  proof -
    have "(2::real) powr of_int (e - 52) = 2 powr (of_int (e - 53) + 1)" by simp
    also have "\<dots> = 2 powr of_int (e - 53) * 2" by (simp only: powr_add) simp
    finally show ?thesis by (simp add: q_def)
  qed
  also have "\<dots> \<le> \<bar>x\<bar> / 2 ^ 53 + 1 / 2 ^ 1075"
  proof (cases "- 1022 \<le> \<lfloor>log 2 \<bar>x\<bar>\<rfloor>")
    case True
    then have e: "e = \<lfloor>log 2 \<bar>x\<bar>\<rfloor>" by (simp add: e_def)
    have "(2::real) powr of_int (e - 53) = 2 powr (of_int e) * 2 powr (- 53)"
      by (simp add: powr_add[symmetric])
    also have "\<dots> = 2 powr (of_int e) / 2 ^ 53"
      by (simp only: two_powr_neg53) simp
    also have "\<dots> \<le> \<bar>x\<bar> / 2 ^ 53"
      using two_powr_floor_log_le[OF False] by (simp add: e divide_right_mono)
    finally show ?thesis by simp
  next
    case False
    then have e: "e = - 1022" by (simp add: e_def)
    have "(2::real) powr of_int (e - 53) = 2 powr (- 1075)" by (simp add: e)
    also have "\<dots> = 1 / 2 ^ 1075" by (rule two_powr_neg1075)
    finally show ?thesis by simp
  qed
  finally show ?thesis .
qed

lemma eps64_bounds: "0 < eps64" "1000 * eps64 \<le> 1 / 1000000000" "eps64 \<le> 1 / 1000000"
  by (simp_all add: eps64_def)

lemma round64_abs_error:
  assumes "\<bar>x\<bar> \<le> 1000"
  shows "\<bar>round64 x - x\<bar> \<le> eps64"
proof -
  define a where "a = \<bar>x\<bar> / 2 ^ 53"
  define c :: real where "c = 1 / 2 ^ 1075"
  have "a \<le> 1000 / 2 ^ 53" using assms by (simp add: a_def divide_right_mono)
  also have "\<dots> \<le> 1 / (2 * 10 ^ 12)" by simp
  finally have a: "a \<le> 1 / (2 * 10 ^ 12)" .
  have "c \<le> 1 / 2 ^ 53" unfolding c_def by (intro divide_left_mono power_increasing) simp_all
  also have "\<dots> \<le> 1 / (2 * 10 ^ 12)" by simp
  finally have c: "c \<le> 1 / (2 * 10 ^ 12)" .
  have "\<bar>round64 x - x\<bar> \<le> a + c" using round64_error[of x] by (simp add: a_def c_def)
  with a c show ?thesis by (simp add: eps64_def)
qed

lemma binary64_val: "\<bar>x\<bar> \<le> 1000 \<Longrightarrow> binary64 (Val x) = Val (round64 x)"
proof -
  assume x: "\<bar>x\<bar> \<le> 1000"
  from round64_abs_error[OF x] x eps64_bounds have "\<bar>round64 x\<bar> \<le> 1001" by linarith
  moreover have "(1001::real) < 2 ^ 1024"
  proof -
    have "(1001::real) < 2 ^ 10" by simp
    also have "\<dots> \<le> 2 ^ 1024" by (intro power_increasing) simp_all
    finally show ?thesis .
  qed
  ultimately have "\<not> 2 ^ 1024 \<le> \<bar>round64 x\<bar>" by linarith
  then show ?thesis by (simp add: binary64.simps(1) Let_def)
qed

lemma round64_eval:
  assumes lo: "2 ^ 52 \<le> \<bar>x\<bar> * 2 ^ k" and hi: "\<bar>x\<bar> * 2 ^ k < 2 ^ 53" and k: "k \<le> 1074"
  shows "round64 x = of_int (roundHalfEven (x * 2 ^ k)) / 2 ^ k"
proof -
  have x0: "x \<noteq> 0" using lo by auto
  have p: "(2::real) powr (52 - real k) = 2 ^ 52 / 2 ^ k"
    by (simp add: powr_diff powr_realpow)
  have p1: "(2::real) powr (53 - real k) = 2 ^ 53 / 2 ^ k"
    by (simp add: powr_diff powr_realpow)
  have "2 powr (52 - real k) \<le> \<bar>x\<bar>" unfolding p using lo by (simp add: field_simps)
  then have l1: "52 - real k \<le> log 2 \<bar>x\<bar>" using x0 by (simp add: le_log_iff)
  have "\<bar>x\<bar> < 2 powr (53 - real k)" unfolding p1 using hi by (simp add: field_simps)
  then have l2: "log 2 \<bar>x\<bar> < 53 - real k" using x0 by (simp add: log_less_iff)
  have fl: "\<lfloor>log 2 \<bar>x\<bar>\<rfloor> = 52 - int k"
    using l1 l2 by (intro floor_unique) simp_all
  have e: "max (- 1022) \<lfloor>log 2 \<bar>x\<bar>\<rfloor> = 52 - int k" using k by (simp add: fl)
  have q: "(2::real) powr of_int (52 - int k - 52) = 1 / 2 ^ k"
    by (simp add: powr_minus_divide powr_realpow)
  have "round64 x = of_int (roundHalfEven (x / (1 / 2 ^ k))) * (1 / 2 ^ k)"
    using x0 unfolding round64_def Let_def e q by simp
  then show ?thesis by simp
qed

section \<open>The lightness of a pixel\<close>

lemma unit255_near: "v \<le> 255 \<Longrightarrow> \<bar>unit255 v - real v / 255\<bar> \<le> eps64"
  unfolding unit255_def by (rule round64_abs_error) simp

lemma binary64_unit: "v \<le> 255 \<Longrightarrow> binary64 (byte v / Val 255) = Val (unit255 v)"
  by (simp add: byte_def unit255_def binary64_val)

lemma unit255_strict_mono:
  assumes "p < q" and "q \<le> 255"
  shows "unit255 p < unit255 q"
proof -
  define P where "P = real p / 255"
  define Q where "Q = real q / 255"
  have "real p + 1 \<le> real q" using assms(1) by simp
  then have "P + 1 / 255 \<le> Q" by (simp add: P_def Q_def field_simps)
  moreover have "\<bar>unit255 p - P\<bar> \<le> eps64"
    unfolding P_def using assms by (intro unit255_near) simp
  moreover have "\<bar>unit255 q - Q\<bar> \<le> eps64"
    unfolding Q_def using assms by (intro unit255_near) simp
  ultimately show ?thesis using eps64_bounds by linarith
qed

lemma unit255_mono: "p \<le> q \<Longrightarrow> q \<le> 255 \<Longrightarrow> unit255 p \<le> unit255 q"
  using unit255_strict_mono[of p q] by (cases "p = q") auto

lemma unit255_max2: "p \<le> 255 \<Longrightarrow> q \<le> 255 \<Longrightarrow> max (unit255 p) (unit255 q) = unit255 (max p q)"
  using unit255_mono[of p q] unit255_mono[of q p] by (cases "p \<le> q") (auto simp: max_def)

lemma unit255_min2: "p \<le> 255 \<Longrightarrow> q \<le> 255 \<Longrightarrow> min (unit255 p) (unit255 q) = unit255 (min p q)"
  using unit255_mono[of p q] unit255_mono[of q p] by (cases "p \<le> q") (auto simp: min_def)

lemma unit255_max3:
  assumes "r \<le> 255" "g \<le> 255" "b \<le> 255"
  shows "max (max (unit255 r) (unit255 g)) (unit255 b) = unit255 (maxByte r g b)"
  using assms by (simp add: unit255_max2 maxByte_def)

lemma unit255_min3:
  assumes "r \<le> 255" "g \<le> 255" "b \<le> 255"
  shows "min (min (unit255 r) (unit255 g)) (unit255 b) = unit255 (minByte r g b)"
  using assms by (simp add: unit255_min2 minByte_def)

lemma maxmin_bytes:
  assumes "r \<le> 255" "g \<le> 255" "b \<le> 255"
  shows "maxByte r g b \<le> 255" "minByte r g b \<le> maxByte r g b"
  using assms by (auto simp: maxByte_def minByte_def)

lemma lightOf_near:
  assumes "lo \<le> hi" "hi \<le> 255"
  shows "\<bar>unit255 hi + unit255 lo\<bar> \<le> 1000"
    and "\<bar>round64 (unit255 hi + unit255 lo) / 2\<bar> \<le> 1000"
    and "\<bar>lightOf hi lo * 255\<bar> \<le> 1000"
    and "\<bar>round64 (lightOf hi lo * 255) - (real hi + real lo) / 2\<bar> \<le> 1 / 1000000000"
proof -
  note e = eps64_bounds
  define H where "H = real hi / 255"
  define L where "L = real lo / 255"
  have HL: "0 \<le> L" "L \<le> H" "H \<le> 1" using assms by (simp_all add: H_def L_def field_simps)
  have a: "\<bar>unit255 hi - H\<bar> \<le> eps64" "\<bar>unit255 lo - L\<bar> \<le> eps64"
    using assms unit255_near[of hi] unit255_near[of lo] by (simp_all add: H_def L_def)
  define s where "s = unit255 hi + unit255 lo"
  have s: "\<bar>s - (H + L)\<bar> \<le> 2 * eps64" using a unfolding s_def by linarith
  then have s1000: "\<bar>s\<bar> \<le> 1000" using HL e by linarith
  then show "\<bar>unit255 hi + unit255 lo\<bar> \<le> 1000" by (simp add: s_def)
  define t where "t = round64 s"
  have t: "\<bar>t - (H + L)\<bar> \<le> 3 * eps64"
    using round64_abs_error[OF s1000] s unfolding t_def by linarith
  then have t1000: "\<bar>t / 2\<bar> \<le> 1000" using HL e by simp
  then show "\<bar>round64 (unit255 hi + unit255 lo) / 2\<bar> \<le> 1000" by (simp add: t_def s_def)
  define l where "l = round64 (t / 2)"
  have l_eq: "l = lightOf hi lo" by (simp add: l_def t_def s_def lightOf_def)
  have t2: "\<bar>t / 2 - (H + L) / 2\<bar> \<le> 2 * eps64"
    using t e by (simp add: abs_le_iff field_simps)
  have l: "\<bar>l - (H + L) / 2\<bar> \<le> 3 * eps64"
    using round64_abs_error[OF t1000] t2 unfolding l_def by (simp add: abs_le_iff)
  define v where "v = l * 255"
  define m where "m = (real hi + real lo) / 2"
  have hl: "(H + L) / 2 * 255 = m" by (simp add: H_def L_def m_def)
  have m255: "0 \<le> m" "m \<le> 255" using HL unfolding hl[symmetric] by simp_all
  have vm: "\<bar>v - m\<bar> \<le> 765 * eps64"
    using l unfolding v_def hl[symmetric] abs_le_iff by linarith
  then have v1000: "\<bar>v\<bar> \<le> 1000" using m255 e by linarith
  then show "\<bar>lightOf hi lo * 255\<bar> \<le> 1000" by (simp add: v_def l_eq)
  have "\<bar>round64 v - m\<bar> \<le> 766 * eps64"
    using round64_abs_error[OF v1000] vm by linarith
  then have "\<bar>round64 v - m\<bar> \<le> 1 / 1000000000" using e by linarith
  then show "\<bar>round64 (lightOf hi lo * 255) - (real hi + real lo) / 2\<bar> \<le> 1 / 1000000000"
    by (simp add: v_def l_eq m_def)
qed

lemma lightness_chain:
  assumes "lo \<le> hi" "hi \<le> 255"
  shows "binary64 (binary64 (Val (unit255 hi) + Val (unit255 lo)) / Val 2) = Val (lightOf hi lo)"
    and "binary64 (Val (lightOf hi lo) * Val 255) = Val (round64 (lightOf hi lo * 255))"
  using lightOf_near[OF assms] by (simp_all add: binary64_val lightOf_def)

lemma saturation_finite:
  assumes "lo < hi" "hi \<le> 255"
  shows "\<exists>s. (if c then binary64 (binary64 (Val (unit255 hi) - Val (unit255 lo))
                               / binary64 (binary64 (Val 2 - Val (unit255 hi)) - Val (unit255 lo)))
              else binary64 (binary64 (Val (unit255 hi) - Val (unit255 lo))
                             / binary64 (Val (unit255 hi) - Val (unit255 lo)))) = Val s"
proof -
  note e = eps64_bounds
  define H where "H = real hi / 255"
  define L where "L = real lo / 255"
  have "real lo + 1 \<le> real hi" using assms(1) by simp
  then have gap: "L + 1 / 255 \<le> H" by (simp add: H_def L_def field_simps)
  have HL: "0 \<le> L" "H \<le> 1" using assms by (simp_all add: H_def L_def field_simps)
  have a: "\<bar>unit255 hi - H\<bar> \<le> eps64" "\<bar>unit255 lo - L\<bar> \<le> eps64"
    using assms unit255_near[of hi] unit255_near[of lo] by (simp_all add: H_def L_def)
  define x where "x = unit255 hi - unit255 lo"
  have x: "1 / 255 - 2 * eps64 \<le> x" "x \<le> 1 + 2 * eps64"
    using a gap HL unfolding x_def by linarith+
  then have x1000: "\<bar>x\<bar> \<le> 1000" using e by linarith
  define d where "d = round64 x"
  have d: "1 / 255 - 3 * eps64 \<le> d" "d \<le> 1 + 3 * eps64"
    using round64_abs_error[OF x1000] x unfolding d_def by linarith+
  have D: "binary64 (Val (unit255 hi) - Val (unit255 lo)) = Val d"
    using x1000 by (simp add: binary64_val d_def x_def)
  define y where "y = 2 - unit255 hi"
  have y: "1 - eps64 \<le> y" "y \<le> 2 + eps64" using a HL gap unfolding y_def by linarith+
  then have y1000: "\<bar>y\<bar> \<le> 1000" using e by linarith
  define z where "z = round64 y - unit255 lo"
  have z: "1 / 255 - 3 * eps64 \<le> z" "z \<le> 2 + 3 * eps64"
    using round64_abs_error[OF y1000] y a gap HL unfolding z_def by linarith+
  then have z1000: "\<bar>z\<bar> \<le> 1000" using e by linarith
  define n where "n = round64 z"
  have n: "1 / 255 - 4 * eps64 \<le> n"
    using round64_abs_error[OF z1000] z unfolding n_def by linarith
  have N: "binary64 (binary64 (Val 2 - Val (unit255 hi)) - Val (unit255 lo)) = Val n"
    using y1000 z1000 by (simp add: binary64_val n_def z_def y_def)
  have lower: "(1::real) / 500 \<le> 1 / 255 - 4 * eps64" using e by linarith
  have quot: "\<bar>d / w\<bar> \<le> 1000" if w: "1 / 500 \<le> w" for w
  proof -
    have dpos: "0 \<le> d" using d lower e by linarith
    have d2: "d \<le> 2" using d e by linarith
    have w0: "0 < w" using w by linarith
    have "d \<le> 1000 * w" using d2 w by linarith
    then have "d / w \<le> 1000" using w0 by (simp add: field_simps)
    moreover have "0 \<le> d / w" using dpos w0 by simp
    ultimately show ?thesis by simp
  qed
  have n1: "1 / 500 \<le> n" using n lower by linarith
  have d1: "1 / 500 \<le> d" using d lower e by linarith
  have "binary64 (Val d / Val n) = Val (round64 (d / n))"
    using quot[OF n1] n1 by (simp add: binary64_val)
  moreover have "binary64 (Val d / Val d) = Val (round64 (d / d))"
    using quot[OF d1] d1 by (simp add: binary64_val)
  ultimately show ?thesis unfolding D N by (cases c) simp_all
qed

lemma rgbToHsl_bytes:
  assumes "r \<le> 255" "g \<le> 255" "b \<le> 255"
  shows "\<exists>h s. rgbToHsl (byte r) (byte g) (byte b)
            = (h, Val s, Val (lightOf (maxByte r g b) (minByte r g b)))"
proof -
  let ?B = "maxByte r g b" and ?m = "minByte r g b"
  have Bm: "?m \<le> ?B" "?B \<le> 255" using maxmin_bytes[OF assms] by simp_all
  have R: "binary64 (byte r / Val 255) = Val (unit255 r)"
    "binary64 (byte g / Val 255) = Val (unit255 g)"
    "binary64 (byte b / Val 255) = Val (unit255 b)"
    using assms by (simp_all add: binary64_unit)
  have MX: "Math_max (Math_max (Val (unit255 r)) (Val (unit255 g))) (Val (unit255 b))
              = Val (unit255 ?B)"
    using unit255_max3[OF assms] by simp
  have MN: "Math_min (Math_min (Val (unit255 r)) (Val (unit255 g))) (Val (unit255 b))
              = Val (unit255 ?m)"
    using unit255_min3[OF assms] by simp
  note LT = lightness_chain(1)[OF Bm]
  show ?thesis
  proof (cases "?m < ?B")
    case True
    then have ne: "strictNe (Val (unit255 ?B)) (Val (unit255 ?m))"
      using unit255_strict_mono[OF True Bm(2)] by simp
    from saturation_finite[OF True Bm(2)] obtain s where
      "(if Val (lightOf ?B ?m) > Val 0.5
        then binary64 (binary64 (Val (unit255 ?B) - Val (unit255 ?m))
                               / binary64 (binary64 (Val 2 - Val (unit255 ?B)) - Val (unit255 ?m)))
        else binary64 (binary64 (Val (unit255 ?B) - Val (unit255 ?m))
                             / binary64 (Val (unit255 ?B) - Val (unit255 ?m)))) = Val s"
      by blast
    then show ?thesis
      unfolding rgbToHsl_def Let_def R MX MN LT using ne by (simp only: if_True) blast
  next
    case False
    with Bm have "?m = ?B" by simp
    then have "\<not> strictNe (Val (unit255 ?B)) (Val (unit255 ?m))" by simp
    then show ?thesis
      unfolding rgbToHsl_def Let_def R MX MN LT by (simp only: if_False) blast
  qed
qed

section \<open>Saturation -100\<close>

lemma round64_zero [simp]: "round64 0 = 0"
  by (simp add: round64_def)

lemma round64_minus_one: "round64 (- 1) = - 1"
  by (subst round64_eval[where k = 52]) (simp_all add: roundHalfEven_def Let_def)

lemma saturationFactor_minus100: "saturationFactor (Val (- 100)) = Val 0"
  by (simp add: saturationFactor_def binary64_val round64_minus_one)

lemma lightness_bytes:
  assumes "r \<le> 255" "g \<le> 255" "b \<le> 255"
  shows "lightness r g b = Val (lightOf (maxByte r g b) (minByte r g b))"
  using rgbToHsl_bytes[OF assms] by (auto simp: lightness_def)

lemma greyLevel_bytes:
  assumes "r \<le> 255" "g \<le> 255" "b \<le> 255"
  shows "greyLevel r g b = Val (round64 (lightOf (maxByte r g b) (minByte r g b) * 255))"
  unfolding greyLevel_def lightness_bytes[OF assms]
  using maxmin_bytes[OF assms] by (intro lightness_chain(2)) simp_all

lemma satPixel_zero:
  assumes "r \<le> 255" "g \<le> 255" "b \<le> 255"
  shows "satPixel (Val 0) r g b a = greyPixel r g b a"
proof -
  from rgbToHsl_bytes[OF assms] obtain h s where
    hsl: "rgbToHsl (byte r) (byte g) (byte b)
            = (h, Val s, Val (lightOf (maxByte r g b) (minByte r g b)))" by blast
  have l: "lightness r g b = Val (lightOf (maxByte r g b) (minByte r g b))"
    by (simp add: lightness_def hsl)
  show ?thesis
    by (simp add: satPixel_def hsl greyPixel_def greyLevel_def l hslToRgb_def Let_def binary64_val)
qed

lemma sat_minus100:
  assumes "wellFormed img"
  shows "applySaturation img (Val (- 100))
         = \<lparr> width = width img, height = height img, data = pixelLoop greyPixel (data img) \<rparr>"
proof -
  have "pixelLoop (satPixel (Val 0)) (data img) = pixelLoop greyPixel (data img)"
    using assms
    by (intro pixelLoop_cong_bytes[where P="\<lambda>v. v \<le> 255"])
       (simp_all add: wellFormed_def satPixel_zero)
  then show ?thesis
    by (simp add: applySaturation_def Let_def saturationFactor_minus100)
qed

lemma greyLevel_near:
  assumes "r \<le> 255" "g \<le> 255" "b \<le> 255"
  shows "\<exists>x. greyLevel r g b = Val x
           \<and> \<bar>x - (real (maxByte r g b) + real (minByte r g b)) / 2\<bar> \<le> 1 / 1000000000"
  unfolding greyLevel_bytes[OF assms]
  using lightOf_near(4)[of "minByte r g b" "maxByte r g b"] maxmin_bytes[OF assms] by simp

lemma store_near_half:
  assumes "\<bar>x - real M / 2\<bar> \<le> 1 / 1000000000" and "M \<le> 510"
  shows "M div 2 \<le> toUint8Clamp (Val x) \<and> toUint8Clamp (Val x) \<le> (M + 1) div 2"
proof -
  from assms(1) have lo: "real M / 2 - 1 / 1000000000 \<le> x" and hi: "x \<le> real M / 2 + 1 / 1000000000"
    by linarith+
  show ?thesis
  proof (cases "x \<le> 0")
    case True
    with lo have "real M < 1" by linarith
    then have "M = 0" by simp
    with True show ?thesis by simp
  next
    case False
    show ?thesis
    proof (cases "255 \<le> x")
      case True
      with hi have "real M > 509" by linarith
      then have "M > 509" by simp
      with assms(2) have "M = 510" by simp
      with True False show ?thesis by simp
    next
      case x255: False
      define n where "n = roundHalfEven x"
      have "\<bar>real_of_int n - x\<bar> \<le> 1 / 2" unfolding n_def by (rule roundHalfEven_error)
      with lo hi have r: "real M - 2 < 2 * real_of_int n" "2 * real_of_int n < real M + 2"
        by linarith+
      have "real_of_int (int M - 2) < real_of_int (2 * n)"
        "real_of_int (2 * n) < real_of_int (int M + 2)"
        using r by simp_all
      then have "int M - 2 < 2 * n" "2 * n < int M + 2"
        by (simp_all only: of_int_less_iff)
      then have "int (M div 2) \<le> n \<and> n \<le> int ((M + 1) div 2)" by presburger
      moreover have "toUint8Clamp (Val x) = nat n" using False x255 by (simp add: n_def)
      ultimately show ?thesis by auto
    qed
  qed
qed

lemma unit255_199: "unit255 199 = 7029147653699833 / 2 ^ 53"
  unfolding unit255_def
  by (subst round64_eval[where k = 53]) (simp_all add: roundHalfEven_def Let_def)

lemma unit255_10: "unit255 10 = 5651576002974740 / 2 ^ 57"
  unfolding unit255_def
  by (subst round64_eval[where k = 57]) (simp_all add: roundHalfEven_def Let_def)

lemma sum_199_10:
  "round64 (7029147653699833 / 2 ^ 53 + 5651576002974740 / 2 ^ 57) = 7382371153885754 / 2 ^ 53"
  by (subst round64_eval[where k = 53]) (simp_all add: roundHalfEven_def Let_def)

lemma half_199_10: "round64 (7382371153885754 / 2 ^ 53 / 2) = 7382371153885754 / 2 ^ 54"
  by (subst round64_eval[where k = 54]) (simp_all add: roundHalfEven_def Let_def)

lemma grey_199_10: "round64 (7382371153885754 / 2 ^ 54 * 255) = 209 / 2"
  by (subst round64_eval[where k = 46]) (simp_all add: roundHalfEven_def Let_def)

lemma greyLevel_10_199_10: "greyLevel 10 199 10 = Val (209 / 2)"
proof -
  have "lightOf 199 10 = 7382371153885754 / 2 ^ 54"
    unfolding lightOf_def unit255_199 unit255_10 sum_199_10 by (rule half_199_10)
  then have "round64 (lightOf 199 10 * 255) = 209 / 2" by (simp only: grey_199_10)
  moreover have "greyLevel 10 199 10 = Val (round64 (lightOf (maxByte 10 199 10) (minByte 10 199 10) * 255))"
    by (rule greyLevel_bytes) simp_all
  ultimately show ?thesis by (simp add: maxByte_def minByte_def)
qed

lemma unit255_65: "unit255 65 = 4591905502416976 / 2 ^ 54"
  unfolding unit255_def
  by (subst round64_eval[where k = 54]) (simp_all add: roundHalfEven_def Let_def)

lemma unit255_2: "unit255 2 = 4521260802379792 / 2 ^ 59"
  unfolding unit255_def
  by (subst round64_eval[where k = 59]) (simp_all add: roundHalfEven_def Let_def)

lemma sum_65_2:
  "round64 (4591905502416976 / 2 ^ 54 + 4521260802379792 / 2 ^ 59) = 4733194902491344 / 2 ^ 54"
  by (subst round64_eval[where k = 54]) (simp_all add: roundHalfEven_def Let_def)

lemma half_65_2: "round64 (4733194902491344 / 2 ^ 54 / 2) = 4733194902491344 / 2 ^ 55"
  by (subst round64_eval[where k = 55]) (simp_all add: roundHalfEven_def Let_def)

lemma grey_65_2: "round64 (4733194902491344 / 2 ^ 55 * 255) = 4714705859903487 / 2 ^ 47"
  by (subst round64_eval[where k = 47]) (simp_all add: roundHalfEven_def Let_def)

lemma greyLevel_2_2_65: "greyLevel 2 2 65 = Val (4714705859903487 / 2 ^ 47)"
proof -
  have "lightOf 65 2 = 4733194902491344 / 2 ^ 55"
    unfolding lightOf_def unit255_65 unit255_2 sum_65_2 by (rule half_65_2)
  then have "round64 (lightOf 65 2 * 255) = 4714705859903487 / 2 ^ 47" by (simp only: grey_65_2)
  moreover have "greyLevel 2 2 65 = Val (round64 (lightOf (maxByte 2 2 65) (minByte 2 2 65) * 255))"
    by (rule greyLevel_bytes) simp_all
  ultimately show ?thesis by (simp add: maxByte_def minByte_def)
qed

lemma sat_10_199_10:
  "applySaturation \<lparr> width = 1, height = 1, data = [10, 199, 10, 255] \<rparr> (Val (- 100))
     = \<lparr> width = 1, height = 1, data = [104, 104, 104, 255] \<rparr>"
  by (simp add: sat_minus100 wellFormed_def greyPixel_def greyLevel_10_199_10 roundHalfEven_def Let_def)

lemma sat_2_2_65:
  "applySaturation \<lparr> width = 1, height = 1, data = [2, 2, 65, 255] \<rparr> (Val (- 100))
     = \<lparr> width = 1, height = 1, data = [33, 33, 33, 255] \<rparr>"
  by (simp add: sat_minus100 wellFormed_def greyPixel_def greyLevel_2_2_65 roundHalfEven_def Let_def)

lemma sat_10_200_10:
  "applySaturation \<lparr> width = 1, height = 1, data = [10, 200, 10, 255] \<rparr> (Val (- 100))
     = \<lparr> width = 1, height = 1, data = [105, 105, 105, 255] \<rparr>"
proof -
  from greyLevel_near[of 10 200 10] obtain x where
    x: "greyLevel 10 200 10 = Val x" "\<bar>x - real (210::nat) / 2\<bar> \<le> 1 / 1000000000"
    by (auto simp: maxByte_def minByte_def)
  from store_near_half[OF x(2)] have "toUint8Clamp (Val x) = 105" by simp
  then show ?thesis
    by (simp add: sat_minus100 wellFormed_def greyPixel_def x(1))
qed

section \<open>Disabled stages\<close>




section \<open>The pipeline with every stage off\<close>



section \<open>Brightness scenario\<close>

text \<open>
  Claim C6. On the 2 by 2 image whose pixels are all (100, 100, 100, 255), brightness 50
  and contrast 0 give 227 in every colour channel and leave alpha at 255. The value
  stored is \<open>(259 / 255) * (100 - 128) + 128 + 127.5\<close>, about 227.06, rounded by the
  byte store.
\<close>

theorem brightness_50_scenario:
  "applyBrightnessContrast
     \<lparr> width = 2, height = 2,
       data = [100, 100, 100, 255, 100, 100, 100, 255, 100, 100, 100, 255, 100, 100, 100, 255] \<rparr>
     (Val 50) (Val 0)
   = \<lparr> width = 2, height = 2,
       data = [227, 227, 227, 255, 227, 227, 227, 255, 227, 227, 227, 255, 227, 227, 227, 255] \<rparr>"
  by (simp add: applyBrightnessContrast_def contrastFactor_def bcChannel_def bcValue_def clamp255_def
      clamp_def byte_def Let_def roundHalfEven_def)

section \<open>The divisor of the lookup tables\<close>

text \<open>
  Claim C10. Whatever the histogram and the clip count, the bounds that \<open>lowHigh\<close>
  returns are at least 1 apart, so the range \<open>hi - lo || 1\<close> that \<open>makeLut\<close>
  divides by is \<open>hi - lo\<close> itself and the fallback 1 is never taken.
\<close>

theorem lowHigh_range_positive:
  "1 \<le> int (snd (lowHigh clipN hist)) - int (fst (lowHigh clipN hist))
   \<and> lutRange (byte (fst (lowHigh clipN hist))) (byte (snd (lowHigh clipN hist)))
       = byte (snd (lowHigh clipN hist)) - byte (fst (lowHigh clipN hist))
   \<and> lutRange (byte (fst (lowHigh clipN hist))) (byte (snd (lowHigh clipN hist))) \<noteq> Val 0"
proof -
  obtain lo hi where lh: "lowHigh clipN hist = (lo, hi)"
    by (cases "lowHigh clipN hist")
  have "lo < hi"
  proof (cases "highScan hist clipN 256 (Val 0) \<le> lowScan hist clipN 0 (Val 0)")
    case True
    with lh have "lo = 0" and "hi = 255" by (simp_all add: lowHigh_def Let_def)
    then show ?thesis by simp
  next
    case False
    with lh show ?thesis by (auto simp: lowHigh_def Let_def)
  qed
  then have gap: "1 \<le> int hi - int lo" and nz: "real hi - real lo \<noteq> 0" by simp_all
  have "byte hi - byte lo = Val (real hi - real lo)" by (simp add: byte_def)
  with nz have "lutRange (byte lo) (byte hi) = byte hi - byte lo"
    and "lutRange (byte lo) (byte hi) \<noteq> Val 0"
    by (simp_all add: lutRange_def orElse_def)
  with gap lh show ?thesis by simp
qed


section \<open>Dimensions are preserved\<close>

text \<open>
  Claim C2. Given enough nonzero draws for the noise stage (six for each pixel), the
  pipeline returns a buffer, and that buffer has the width and the height of the input,
  for every parameter set; it is well-formed when the input is. Each stage on its own
  keeps the width and the height too.
\<close>

theorem pipeline_preserves_dimensions:
  assumes "6 * (length (data img) div 4) \<le> nonzeroDraws rs"
  shows "(\<exists>out rs'. applyPipeline rs img adj = Some (out, rs') \<and> sameDims img out
            \<and> (wellFormed img \<longrightarrow> wellFormed out))
       \<and> sameDims img (applyAutoWhiteBalance img clipPct)
       \<and> (\<exists>out rs'. applyGaussianNoise rs img sigma = Some (out, rs') \<and> sameDims img out)
       \<and> sameDims img (applyBrightnessContrast img brightnessPct contrastPct)
       \<and> sameDims img (applySaturation img saturationPct)
       \<and> sameDims img (applyGaussianBlur img sigmaPx)"
proof -
  from noiseLoop_len_div[OF assms, of sigma]
  have "\<exists>out rs'. applyGaussianNoise rs img sigma = Some (out, rs') \<and> sameDims img out"
    by blast
  with pipeline_result[OF assms, of adj] show ?thesis
    by (simp add: awb_dims bc_dims sat_dims blur_dims)
qed

theorem pipeline_preserves_dimensions_witness:
  "6 * (length (data \<lparr> width = 1, height = 1, data = [10, 200, 10, 255] \<rparr>) div 4)
     \<le> nonzeroDraws [0, 0.5, 0.25, 0.5, 0.25, 0.5, 0.25]
   \<and> (\<exists>out rs'. applyPipeline [0, 0.5, 0.25, 0.5, 0.25, 0.5, 0.25]
          \<lparr> width = 1, height = 1, data = [10, 200, 10, 255] \<rparr>
          \<lparr> autoWhiteBalance = True, noiseSigma = Val 5, blurPx = Val 2, brightness = Val 10,
            contrast = Val 20, saturation = Val 30 \<rparr> = Some (out, rs')
        \<and> sameDims \<lparr> width = 1, height = 1, data = [10, 200, 10, 255] \<rparr> out
        \<and> wellFormed out)
   \<and> (\<exists>out rs'. applyGaussianNoise [0, 0.5, 0.25, 0.5, 0.25, 0.5, 0.25]
          \<lparr> width = 1, height = 1, data = [10, 200, 10, 255] \<rparr> (Val 5) = Some (out, rs')
        \<and> sameDims \<lparr> width = 1, height = 1, data = [10, 200, 10, 255] \<rparr> out)
   \<and> sameDims \<lparr> width = 1, height = 1, data = [10, 200, 10, 255] \<rparr>
        (applyGaussianBlur \<lparr> width = 1, height = 1, data = [10, 200, 10, 255] \<rparr> (Val 2))"
  using pipeline_preserves_dimensions
    [of "\<lparr> width = 1, height = 1, data = [10, 200, 10, 255] \<rparr>"
        "[0, 0.5, 0.25, 0.5, 0.25, 0.5, 0.25]"
        "\<lparr> autoWhiteBalance = True, noiseSigma = Val 5, blurPx = Val 2, brightness = Val 10,
           contrast = Val 20, saturation = Val 30 \<rparr>"
        defaultClipPct "Val 5" "Val 10" "Val 20" "Val 30" "Val 2"]
  by (simp add: nonzeroDraws_def wellFormed_def)

section \<open>Contrast 100\<close>




section \<open>Alpha is preserved\<close>

text \<open>
  Claim C4. On a well-formed buffer the white balance, noise, brightness and contrast, and
  saturation stages return a buffer of the same length with the same alpha byte at
  every pixel, for every parameter value. The noise stage returns when the supply holds
  six nonzero draws for each pixel.
\<close>

theorem stages_preserve_alpha:
  assumes "wellFormed img" and "6 * (width img * height img) \<le> nonzeroDraws rs"
  shows "alphaPreserved img (applyAutoWhiteBalance img clipPct)
       \<and> (\<exists>out rs'. applyGaussianNoise rs img sigma = Some (out, rs') \<and> alphaPreserved img out)
       \<and> alphaPreserved img (applyBrightnessContrast img brightnessPct contrastPct)
       \<and> alphaPreserved img (applySaturation img saturationPct)"
proof (intro conjI)
  show "alphaPreserved img (applyAutoWhiteBalance img clipPct)"
    using assms(1) by (rule awb_alpha)
  show "\<exists>out rs'. applyGaussianNoise rs img sigma = Some (out, rs') \<and> alphaPreserved img out"
    using assms by (rule noise_alpha)
  show "alphaPreserved img (applyBrightnessContrast img brightnessPct contrastPct)"
    using assms(1) by (rule bc_alpha)
  show "alphaPreserved img (applySaturation img saturationPct)"
    using assms(1) by (rule sat_alpha)
qed

theorem stages_preserve_alpha_witness:
  "wellFormed \<lparr> width = 1, height = 1, data = [10, 200, 10, 77] \<rparr>
   \<and> 6 * (width \<lparr> width = 1, height = 1, data = [10, 200, 10, 77] \<rparr>
          * height \<lparr> width = 1, height = 1, data = [10, 200, 10, 77] \<rparr>)
       \<le> nonzeroDraws [0.5, 0.25, 0, 0.5, 0.25, 0.5, 0.25]
   \<and> alphaPreserved \<lparr> width = 1, height = 1, data = [10, 200, 10, 77] \<rparr>
        (applyAutoWhiteBalance \<lparr> width = 1, height = 1, data = [10, 200, 10, 77] \<rparr> defaultClipPct)
   \<and> (\<exists>out rs'. applyGaussianNoise [0.5, 0.25, 0, 0.5, 0.25, 0.5, 0.25]
          \<lparr> width = 1, height = 1, data = [10, 200, 10, 77] \<rparr> (Val 50) = Some (out, rs')
        \<and> alphaPreserved \<lparr> width = 1, height = 1, data = [10, 200, 10, 77] \<rparr> out)
   \<and> alphaPreserved \<lparr> width = 1, height = 1, data = [10, 200, 10, 77] \<rparr>
        (applyBrightnessContrast \<lparr> width = 1, height = 1, data = [10, 200, 10, 77] \<rparr>
           (Val 100) (Val (- 100)))
   \<and> alphaPreserved \<lparr> width = 1, height = 1, data = [10, 200, 10, 77] \<rparr>
        (applySaturation \<lparr> width = 1, height = 1, data = [10, 200, 10, 77] \<rparr> (Val 100))"
  using stages_preserve_alpha
    [of "\<lparr> width = 1, height = 1, data = [10, 200, 10, 77] \<rparr>"
        "[0.5, 0.25, 0, 0.5, 0.25, 0.5, 0.25]" defaultClipPct "Val 50" "Val 100" "Val (- 100)"
        "Val 100"]
  by (simp add: wellFormed_def nonzeroDraws_def)

section \<open>White balance of a single-colour image\<close>

text \<open>
  Claim C5. On an image whose pixels are all the same \<open>(r, g, b, a)\<close>, whatever its
  width and height, the white balance stage returns the image it was given: each
  histogram has a single occupied bin, so both scans of \<open>lowHigh\<close> stop at that bin or
  at none, the bounds fall back to 0 and 255, and each table maps a byte to itself.
\<close>

theorem white_balance_single_colour_identity:
  assumes "r \<le> 255" and "g \<le> 255" and "b \<le> 255" and "a \<le> 255"
  shows "applyAutoWhiteBalance \<lparr> width = w, height = h, data = uniformData (w * h) r g b a \<rparr>
           defaultClipPct
         = \<lparr> width = w, height = h, data = uniformData (w * h) r g b a \<rparr>
       \<and> (case histLoop (uniformData (w * h) r g b a)
                  (replicate 256 0, replicate 256 0, replicate 256 0) of
            (hr, hg, hb) \<Rightarrow>
              lowHigh (clipCount (w * h) defaultClipPct) hr = (0, 255)
              \<and> lowHigh (clipCount (w * h) defaultClipPct) hg = (0, 255)
              \<and> lowHigh (clipCount (w * h) defaultClipPct) hb = (0, 255))
       \<and> makeLut (byte 0) (byte 255) = [0..<256]"
proof (intro conjI)
  show "applyAutoWhiteBalance \<lparr> width = w, height = h, data = uniformData (w * h) r g b a \<rparr>
           defaultClipPct
         = \<lparr> width = w, height = h, data = uniformData (w * h) r g b a \<rparr>"
    using assms by (rule awb_uniform)
  show "makeLut (byte 0) (byte 255) = [0..<256]"
    by (rule makeLut_identity)
  from histLoop_uniform[OF singleBin_zero singleBin_zero singleBin_zero,
      where n = "w * h" and a = a and r = r and g = g and b = b]
  obtain hr hg hb where
    hl: "histLoop (uniformData (w * h) r g b a) (replicate 256 0, replicate 256 0, replicate 256 0)
       = (hr, hg, hb)" and sb: "singleBin r hr" "singleBin g hg" "singleBin b hb" by blast
  have "lowHigh (clipCount (w * h) defaultClipPct) hr = (0, 255)"
    "lowHigh (clipCount (w * h) defaultClipPct) hg = (0, 255)"
    "lowHigh (clipCount (w * h) defaultClipPct) hb = (0, 255)"
    using sb assms(1-3) clipCount_not_neg by (simp_all add: lowHigh_singleBin)
  then show "case histLoop (uniformData (w * h) r g b a)
                  (replicate 256 0, replicate 256 0, replicate 256 0) of
            (hr, hg, hb) \<Rightarrow>
              lowHigh (clipCount (w * h) defaultClipPct) hr = (0, 255)
              \<and> lowHigh (clipCount (w * h) defaultClipPct) hg = (0, 255)
              \<and> lowHigh (clipCount (w * h) defaultClipPct) hb = (0, 255)"
    unfolding hl by simp
qed

theorem white_balance_single_colour_identity_witness:
  "(10::nat) \<le> 255 \<and> (200::nat) \<le> 255 \<and> (30::nat) \<le> 255 \<and> (255::nat) \<le> 255
   \<and> applyAutoWhiteBalance \<lparr> width = 2, height = 1, data = [10, 200, 30, 255, 10, 200, 30, 255] \<rparr>
        defaultClipPct
      = \<lparr> width = 2, height = 1, data = [10, 200, 30, 255, 10, 200, 30, 255] \<rparr>"
  using white_balance_single_colour_identity [of 10 200 30 255 2 1, THEN conjunct1]
  by (simp add: uniformData_def eval_nat_numeral)

section \<open>Full desaturation\<close>

text \<open>
  Claim C8, as amended. With \<open>saturationPct = -100\<close> the factor is 0, the scaled
  saturation is 0 and the achromatic branch of \<open>hslToRgb\<close> is taken: on a well-formed
  buffer every output pixel keeps its alpha and has its three colour bytes equal to the
  byte that the store (nearest integer, ties to even) makes of the binary64 product
  \<open>l * 255\<close>, where \<open>l\<close> is the binary64 lightness that \<open>rgbToHsl\<close> computes. For colour
  bytes with largest value \<open>max\<close> and smallest value \<open>min\<close> that product is within
  \<open>1 / 1000000000\<close> of \<open>(max + min) / 2\<close>, so the stored byte is \<open>(max + min) / 2\<close> when the
  sum is even and one of the two integers next to it when the sum is odd. On the 1 by 1
  image (10, 200, 10, 255) the result is (105, 105, 105, 255).
\<close>

theorem full_desaturation_is_grey:
  assumes "wellFormed img"
  shows "applySaturation img (Val (- 100))
           = \<lparr> width = width img, height = height img, data = pixelLoop greyPixel (data img) \<rparr>
       \<and> greyPixel r g b a
           = [toUint8Clamp (greyLevel r g b), toUint8Clamp (greyLevel r g b),
              toUint8Clamp (greyLevel r g b), a]
       \<and> (r \<le> 255 \<and> g \<le> 255 \<and> b \<le> 255 \<longrightarrow>
            (\<exists>x. greyLevel r g b = Val x
                 \<and> \<bar>x - (real (maxByte r g b) + real (minByte r g b)) / 2\<bar> \<le> 1 / 1000000000)
            \<and> (maxByte r g b + minByte r g b) div 2 \<le> toUint8Clamp (greyLevel r g b)
            \<and> toUint8Clamp (greyLevel r g b) \<le> (maxByte r g b + minByte r g b + 1) div 2)
       \<and> applySaturation \<lparr> width = 1, height = 1, data = [10, 200, 10, 255] \<rparr> (Val (- 100))
           = \<lparr> width = 1, height = 1, data = [105, 105, 105, 255] \<rparr>"
proof (intro conjI impI)
  show "applySaturation img (Val (- 100))
          = \<lparr> width = width img, height = height img, data = pixelLoop greyPixel (data img) \<rparr>"
    using assms by (rule sat_minus100)
  show "greyPixel r g b a
          = [toUint8Clamp (greyLevel r g b), toUint8Clamp (greyLevel r g b),
             toUint8Clamp (greyLevel r g b), a]"
    by (simp add: greyPixel_def Let_def)
  show "applySaturation \<lparr> width = 1, height = 1, data = [10, 200, 10, 255] \<rparr> (Val (- 100))
          = \<lparr> width = 1, height = 1, data = [105, 105, 105, 255] \<rparr>"
    by (rule sat_10_200_10)
next
  assume rgb: "r \<le> 255 \<and> g \<le> 255 \<and> b \<le> 255"
  then have bytes: "r \<le> 255" "g \<le> 255" "b \<le> 255" by simp_all
  from greyLevel_near[OF bytes] obtain x where
    x: "greyLevel r g b = Val x"
       "\<bar>x - (real (maxByte r g b) + real (minByte r g b)) / 2\<bar> \<le> 1 / 1000000000"
    by blast
  then show "\<exists>x. greyLevel r g b = Val x
                \<and> \<bar>x - (real (maxByte r g b) + real (minByte r g b)) / 2\<bar> \<le> 1 / 1000000000"
    by blast
  have M: "maxByte r g b + minByte r g b \<le> 510"
    using maxmin_bytes[OF bytes] by simp
  have near: "\<bar>x - real (maxByte r g b + minByte r g b) / 2\<bar> \<le> 1 / 1000000000"
    using x(2) by simp
  from store_near_half[OF near M]
  show "(maxByte r g b + minByte r g b) div 2 \<le> toUint8Clamp (greyLevel r g b)"
    and "toUint8Clamp (greyLevel r g b) \<le> (maxByte r g b + minByte r g b + 1) div 2"
    by (simp_all add: x(1))
qed

theorem full_desaturation_is_grey_witness:
  "wellFormed \<lparr> width = 1, height = 2, data = [10, 200, 10, 255, 10, 201, 10, 0] \<rparr>
   \<and> applySaturation \<lparr> width = 1, height = 2, data = [10, 200, 10, 255, 10, 201, 10, 0] \<rparr>
        (Val (- 100))
      = \<lparr> width = 1, height = 2,
          data = pixelLoop greyPixel [10, 200, 10, 255, 10, 201, 10, 0] \<rparr>
   \<and> 105 \<le> toUint8Clamp (greyLevel 10 201 10)
   \<and> toUint8Clamp (greyLevel 10 201 10) \<le> 106"
  using full_desaturation_is_grey
    [of "\<lparr> width = 1, height = 2, data = [10, 200, 10, 255, 10, 201, 10, 0] \<rparr>" 10 201 10 0]
  by (simp add: wellFormed_def maxByte_def minByte_def)

text \<open>
  The stored byte is not \<open>Math.round\<close> of the product, and not the rounding of the exact
  \<open>(max + min) / 2\<close>. At (10, 199, 10) the binary64 product is 104.5: the store writes
  104, \<open>Math.round\<close> gives 105. At (2, 2, 65) the exact \<open>(65 + 2) / 2\<close> is 33.5, which
  either rounding takes to 34; the binary64 product is just below 33.5 and the store
  writes 33.
\<close>

theorem full_desaturation_not_math_round:
  "applySaturation \<lparr> width = 1, height = 1, data = [10, 199, 10, 255] \<rparr> (Val (- 100))
     = \<lparr> width = 1, height = 1, data = [104, 104, 104, 255] \<rparr>
   \<and> greyLevel 10 199 10 = Val (209 / 2)
   \<and> Math_round (greyLevel 10 199 10) = Val 105
   \<and> applySaturation \<lparr> width = 1, height = 1, data = [2, 2, 65, 255] \<rparr> (Val (- 100))
     = \<lparr> width = 1, height = 1, data = [33, 33, 33, 255] \<rparr>
   \<and> roundHalfEven ((65 + 2) / 2) = 34
   \<and> Math_round (Val ((65 + 2) / 2)) = Val 34"
  using sat_10_199_10 sat_2_2_65
  by (simp add: greyLevel_10_199_10 roundHalfEven_def Let_def)

section \<open>The blur kernel is normalised\<close>

text \<open>
  Claim C7. For every \<open>sigmaPx > 0.1\<close> the weights that \<open>makeGaussianKernel\<close>
  leaves in its \<open>Float32Array\<close> are finite and sum to 1 within \<open>1e-5\<close>, and the
  blur stage returns an image whose pixels are all the same \<open>(r, g, b, a)\<close> as it
  was given: each accumulator is the byte times the sum of the weights, which the byte
  store rounds back to the byte, at the edges as elsewhere since an index outside the
  image is clamped to the nearest pixel inside.
\<close>

theorem blur_kernel_normalised:
  assumes "sigmaPx > Val 0.1" and "r \<le> 255" and "g \<le> 255" and "b \<le> 255" and "a \<le> 255"
  shows "(\<exists>t. sumOf (fst (makeGaussianKernel sigmaPx)) = Val t \<and> \<bar>t - 1\<bar> \<le> 1 / 100000)
       \<and> applyGaussianBlur \<lparr> width = w, height = h, data = uniformData (w * h) r g b a \<rparr> sigmaPx
           = \<lparr> width = w, height = h, data = uniformData (w * h) r g b a \<rparr>"
  using kernel_sum[OF assms(1)] blur_uniform[OF assms] by simp

theorem blur_kernel_normalised_witness:
  "Val 2 > Val 0.1 \<and> (40::nat) \<le> 255 \<and> (80::nat) \<le> 255 \<and> (120::nat) \<le> 255 \<and> (255::nat) \<le> 255
   \<and> (\<exists>t. sumOf (fst (makeGaussianKernel (Val 2))) = Val t \<and> \<bar>t - 1\<bar> \<le> 1 / 100000)
   \<and> applyGaussianBlur
        \<lparr> width = 2, height = 1, data = [40, 80, 120, 255, 40, 80, 120, 255] \<rparr> (Val 2)
       = \<lparr> width = 2, height = 1, data = [40, 80, 120, 255, 40, 80, 120, 255] \<rparr>"
  using blur_kernel_normalised [of "Val 2" 40 80 120 255 2 1]
  by (simp add: uniformData_def eval_nat_numeral)

end
